theory Spec2Isabelle
  imports Main "HOL-Library.Char_ord" "HOL-Library.List_Lexorder"
begin

section \<open>The durable command queue (src/utils/command-queue.ts)\<close>

text \<open>
  \<^verbatim>\<open>QueuedCommand\<close> is the interface of the source. The field \<^verbatim>\<open>id\<close> is written
  \<open>cid\<close> and \<^verbatim>\<open>value\<close> is written \<open>cvalue\<close>; \<^verbatim>\<open>retryCount\<close> starts at 0 and is
  only ever incremented, so it is a natural number.
\<close>

datatype status = pending | sending | failed | success

record QueuedCommand =
  cid :: string
  deviceId :: string
  command :: string
  cvalue :: "string option"
  timestamp :: int
  retryCount :: nat
  status :: status

definition MAX_RETRIES :: nat where
  "MAX_RETRIES = 3"

text \<open>
  The class keeps its state in static fields. Commands are JavaScript objects: the array
  \<^verbatim>\<open>this.queue\<close> and the loop variable \<^verbatim>\<open>cmd\<close> of \<^verbatim>\<open>processQueue\<close> hold references to the
  same objects, so the model has an explicit object store \<open>heap\<close> and the queue is a list
  of addresses. \<open>timers\<close> are the scheduled \<^verbatim>\<open>setTimeout\<close> callbacks that have neither fired nor
  been cancelled, \<open>saveTimeout\<close> is the handle the class remembers, and \<open>store\<close> is what
  AsyncStorage holds under \<^verbatim>\<open>QUEUE_KEY\<close> (the parsed form of the serialised list; \<open>None\<close>
  when the key is absent). \<open>sent\<close> is not a field of the class: it logs the commands handed
  to \<^verbatim>\<open>deviceAPI.sendCommand\<close>, so that delivery attempts can be counted.

  Every \<^verbatim>\<open>await\<close> is a suspension point. A suspended continuation is a \<open>task\<close>:
  \<^item> \<open>AddCont\<close>: \<^verbatim>\<open>addCommand\<close> at line 48, about to call \<^verbatim>\<open>processQueue\<close>;
  \<^item> \<open>AwaitSave1 a rest\<close>: \<^verbatim>\<open>processQueue\<close> at line 77, with \<^verbatim>\<open>cmd\<close> the object at \<open>a\<close> and
    \<open>rest\<close> the commands of \<^verbatim>\<open>pendingCommands\<close> that follow it;
  \<^item> \<open>AwaitSend a rest\<close>: line 79, waiting for \<^verbatim>\<open>deviceAPI.sendCommand\<close>;
  \<^item> \<open>AwaitSave2 rest\<close>: line 85 or line 90, about to take the next command;
  \<^item> \<open>AwaitFinal\<close>: line 97, after the loop;
  \<^item> \<open>TimerCont\<close>: the timer callback of \<^verbatim>\<open>saveQueue\<close> at line 130, after its write;
  \<^item> \<open>SaveImmCont\<close>: \<^verbatim>\<open>saveQueueImmediate\<close> at line 146, after its write;
  \<^item> \<open>ClearCont\<close>: \<^verbatim>\<open>clearQueue\<close> at line 108, waiting for \<^verbatim>\<open>saveQueueImmediate\<close>.
\<close>

datatype task =
    AddCont
  | AwaitSave1 nat "nat list"
  | AwaitSend nat "nat list"
  | AwaitSave2 "nat list"
  | AwaitFinal
  | TimerCont
  | SaveImmCont
  | ClearCont

record cq =
  heap :: "nat \<Rightarrow> QueuedCommand"
  nextRef :: nat
  queue :: "nat list"
  processing :: bool
  saveTimeout :: "nat option"
  timers :: "nat list"
  nextTimer :: nat
  store :: "QueuedCommand list option"
  tasks :: "task list"
  sent :: "QueuedCommand list"

definition blank :: QueuedCommand where
  "blank = \<lparr>cid = [], deviceId = [], command = [], cvalue = None, timestamp = 0,
             retryCount = 0, status = pending\<rparr>"

definition init_state :: cq where
  "init_state = \<lparr>heap = (\<lambda>_. blank), nextRef = 0, queue = [], processing = False,
                  saveTimeout = None, timers = [], nextTimer = 0, store = None, tasks = [],
                  sent = []\<rparr>"

subsection \<open>Persistence\<close>

definition clearTimeout :: "nat \<Rightarrow> cq \<Rightarrow> cq" where
  "clearTimeout t s = s\<lparr>timers := removeAll t (timers s)\<rparr>"

text \<open>\<^verbatim>\<open>saveQueue\<close>: cancel the remembered timer, schedule a new one and remember it.\<close>

definition saveQueue :: "cq \<Rightarrow> cq" where
  "saveQueue s =
     (let s1 = (case saveTimeout s of Some t \<Rightarrow> clearTimeout t s | None \<Rightarrow> s)
      in s1\<lparr>saveTimeout := Some (nextTimer s1),
             timers := timers s1 @ [nextTimer s1],
             nextTimer := Suc (nextTimer s1)\<rparr>)"

text \<open>\<^verbatim>\<open>JSON.stringify(this.queue)\<close>: the objects the queue refers to, in order.\<close>

definition snapshot :: "cq \<Rightarrow> QueuedCommand list" where
  "snapshot s = map (heap s) (queue s)"

text \<open>
  The timer callback of \<^verbatim>\<open>saveQueue\<close>. The write is issued when the timer fires; \<open>ok\<close>
  says whether \<^verbatim>\<open>AsyncStorage.setItem\<close> succeeds. After a successful write the callback
  resumes (\<open>TimerCont\<close>) and sets \<^verbatim>\<open>this.saveTimeout = null\<close>; a failed write is caught and
  logged.
\<close>

definition timerFire :: "nat \<Rightarrow> bool \<Rightarrow> cq \<Rightarrow> cq" where
  "timerFire t ok s =
     (let s1 = s\<lparr>timers := removeAll t (timers s)\<rparr>
      in if ok then s1\<lparr>store := Some (snapshot s1), tasks := tasks s1 @ [TimerCont]\<rparr> else s1)"

text \<open>
  \<^verbatim>\<open>saveQueueImmediate\<close> up to its \<^verbatim>\<open>await\<close>: the remembered timer is cancelled and the write is
  issued at once, with the queue of that moment; a failed write is caught and logged. A write
  of the store takes effect when it is issued, so writes take effect in the order of their
  calls; what follows the \<^verbatim>\<open>await\<close> is the continuation \<open>SaveImmCont\<close>.
\<close>

definition saveQueueImmediate :: "bool \<Rightarrow> cq \<Rightarrow> cq" where
  "saveQueueImmediate ok s =
     (let s1 = (case saveTimeout s of
                  Some t \<Rightarrow> (clearTimeout t s)\<lparr>saveTimeout := None\<rparr>
                | None \<Rightarrow> s);
          s2 = (if ok then s1\<lparr>store := Some (snapshot s1)\<rparr> else s1)
      in s2\<lparr>tasks := tasks s2 @ [SaveImmCont]\<rparr>)"

subsection \<open>Operations\<close>

text \<open>
  \<^verbatim>\<open>addCommand\<close> up to its \<^verbatim>\<open>await\<close>. \<open>newid\<close> stands for the string made of \<^verbatim>\<open>Date.now()\<close> and
  \<^verbatim>\<open>Math.random()\<close>, and \<open>now\<close> for the reading of the clock.
\<close>

definition addCommand :: "string \<Rightarrow> string \<Rightarrow> string option \<Rightarrow> string \<Rightarrow> int \<Rightarrow> cq \<Rightarrow> cq" where
  "addCommand dev cmd v newid now s =
     (let a = nextRef s;
          queuedCommand = \<lparr>cid = newid, deviceId = dev, command = cmd, cvalue = v,
                            timestamp = now, retryCount = 0, status = pending\<rparr>;
          s1 = s\<lparr>heap := (heap s)(a := queuedCommand), nextRef := Suc a, queue := queue s @ [a]\<rparr>;
          s2 = saveQueue s1
      in s2\<lparr>tasks := tasks s2 @ [AddCont]\<rparr>)"

text \<open>\<^verbatim>\<open>this.queue = this.queue.filter(c => c.id !== cmd.id)\<close>\<close>

definition removeById :: "string \<Rightarrow> cq \<Rightarrow> cq" where
  "removeById i s = s\<lparr>queue := filter (\<lambda>c. cid (heap s c) \<noteq> i) (queue s)\<rparr>"

definition eligible :: "cq \<Rightarrow> nat \<Rightarrow> bool" where
  "eligible s a = (status (heap s a) = pending \<or> status (heap s a) = failed)"

text \<open>
  The pieces of the loop body and the end of \<^verbatim>\<open>processQueue\<close>: lines 75-77 (mark the
  command as sending, count the attempt, save), line 79 (the call of the transport),
  lines 84-85 and 89-90 (remove on success, mark as failed otherwise, save), lines 94-97.
\<close>

definition beginAttempt :: "nat \<Rightarrow> cq \<Rightarrow> cq" where
  "beginAttempt a s =
     (let c = heap s a
      in saveQueue (s\<lparr>heap := (heap s)(a := c\<lparr>retryCount := Suc (retryCount c), status := sending\<rparr>)\<rparr>))"

definition issueSend :: "nat \<Rightarrow> cq \<Rightarrow> cq" where
  "issueSend a s = s\<lparr>sent := sent s @ [heap s a]\<rparr>"

definition finishAttempt :: "bool \<Rightarrow> nat \<Rightarrow> cq \<Rightarrow> cq" where
  "finishAttempt ok a s =
     saveQueue (if ok then removeById (cid (heap s a)) s
                else s\<lparr>heap := (heap s)(a := (heap s a)\<lparr>status := failed\<rparr>)\<rparr>)"

definition endDrain :: "cq \<Rightarrow> cq" where
  "endDrain s = saveQueue (s\<lparr>processing := False\<rparr>)"

text \<open>
  \<open>runLoop\<close> is the \<^verbatim>\<open>for\<close> loop from the head of the remaining \<^verbatim>\<open>pendingCommands\<close> to
  the next \<^verbatim>\<open>await\<close>: commands at the retry ceiling are removed without suspending.
\<close>

fun runLoop :: "nat list \<Rightarrow> cq \<Rightarrow> cq" where
  "runLoop [] s = (let s1 = endDrain s in s1\<lparr>tasks := tasks s1 @ [AwaitFinal]\<rparr>)"
| "runLoop (a # rest) s =
     (if retryCount (heap s a) \<ge> MAX_RETRIES
      then runLoop rest (removeById (cid (heap s a)) s)
      else let s1 = beginAttempt a s in s1\<lparr>tasks := tasks s1 @ [AwaitSave1 a rest]\<rparr>)"

definition processQueue :: "cq \<Rightarrow> cq" where
  "processQueue s =
     (if processing s \<or> queue s = [] then s
      else let s1 = s\<lparr>processing := True\<rparr>;
               pendingCommands = filter (eligible s1) (queue s1)
           in runLoop pendingCommands s1)"

text \<open>
  \<^verbatim>\<open>clearQueue\<close> up to its \<^verbatim>\<open>await\<close>: lines 101-106 and the call of \<^verbatim>\<open>saveQueueImmediate\<close>, which
  runs up to its own \<^verbatim>\<open>await\<close>. \<^verbatim>\<open>clearQueue\<close> returns when \<open>SaveImmCont\<close> and then \<open>ClearCont\<close>
  have resumed.
\<close>

definition clearQueue :: "bool \<Rightarrow> cq \<Rightarrow> cq" where
  "clearQueue ok s =
     (let s1 = s\<lparr>queue := []\<rparr>;
          s2 = (case saveTimeout s1 of
                  Some t \<Rightarrow> (clearTimeout t s1)\<lparr>saveTimeout := None\<rparr>
                | None \<Rightarrow> s1)
      in saveQueueImmediate ok s2)"

definition getPendingCount :: "cq \<Rightarrow> nat" where
  "getPendingCount s = length (filter (eligible s) (queue s))"

definition getQueuedCommands :: "cq \<Rightarrow> QueuedCommand list" where
  "getQueuedCommands s = snapshot s"

text \<open>
  \<^verbatim>\<open>init\<close>: \<open>ok\<close> says whether \<^verbatim>\<open>AsyncStorage.getItem\<close> and \<^verbatim>\<open>JSON.parse\<close> succeed. The
  parsed commands are new objects.
\<close>

definition load :: "QueuedCommand list \<Rightarrow> cq \<Rightarrow> cq" where
  "load cs s =
     s\<lparr>heap := (\<lambda>a. if nextRef s \<le> a \<and> a < nextRef s + length cs then cs ! (a - nextRef s)
                     else heap s a),
       nextRef := nextRef s + length cs,
       queue := [nextRef s ..< nextRef s + length cs]\<rparr>"

definition init :: "bool \<Rightarrow> cq \<Rightarrow> cq" where
  "init ok s = (if ok then (case store s of Some cs \<Rightarrow> load cs s | None \<Rightarrow> s) else s)"

text \<open>A process restart: the static fields are back at their initial values, the durable
  store survives, and \<^verbatim>\<open>init\<close> runs.\<close>

definition restart :: "bool \<Rightarrow> cq \<Rightarrow> cq" where
  "restart ok s =
     init ok (s\<lparr>queue := [], processing := False, saveTimeout := None, timers := [], tasks := []\<rparr>)"

subsection \<open>A drain pass that nothing interleaves with\<close>

text \<open>
  \<^verbatim>\<open>processQueue\<close> run from its call to its end with no other operation in between. The
  transport is a function \<open>send\<close> that tells, for the command it is handed, whether
  \<^verbatim>\<open>deviceAPI.sendCommand\<close> resolves (\<open>True\<close>) or rejects.
\<close>

text \<open>One iteration of the \<^verbatim>\<open>for\<close> loop, from its first line to its last.\<close>

definition iteration :: "(QueuedCommand \<Rightarrow> bool) \<Rightarrow> nat \<Rightarrow> cq \<Rightarrow> cq" where
  "iteration send a s =
     (if retryCount (heap s a) \<ge> MAX_RETRIES
      then removeById (cid (heap s a)) s
      else let s1 = issueSend a (beginAttempt a s)
           in finishAttempt (send (heap s1 a)) a s1)"

fun drainLoop :: "(QueuedCommand \<Rightarrow> bool) \<Rightarrow> nat list \<Rightarrow> cq \<Rightarrow> cq" where
  "drainLoop send [] s = endDrain s"
| "drainLoop send (a # rest) s = drainLoop send rest (iteration send a s)"

definition drain :: "(QueuedCommand \<Rightarrow> bool) \<Rightarrow> cq \<Rightarrow> cq" where
  "drain send s =
     (if processing s \<or> queue s = [] then s
      else let s1 = s\<lparr>processing := True\<rparr>;
               pendingCommands = filter (eligible s1) (queue s1)
           in drainLoop send pendingCommands s1)"

text \<open>Successive drain passes, each with the transport of its time.\<close>

fun drains :: "(QueuedCommand \<Rightarrow> bool) list \<Rightarrow> cq \<Rightarrow> cq" where
  "drains [] s = s"
| "drains (send # sends) s = drains sends (drain send s)"

text \<open>A transport that rejects every call (no network).\<close>

definition noNetwork :: "QueuedCommand \<Rightarrow> bool" where
  "noNetwork c = False"

definition attempts :: "cq \<Rightarrow> string \<Rightarrow> nat" where
  "attempts s i = length (filter (\<lambda>c. cid c = i) (sent s))"

subsection \<open>Interleavings\<close>

text \<open>
  What can happen next: a caller invokes an operation, the \<open>i\<close>-th suspended continuation
  resumes (\<open>Resume i\<close>), the transport settles the call that the \<open>i\<close>-th continuation waits for
  (\<open>SendResult i ok\<close>), a scheduled timer fires (\<open>TimerFire t ok\<close>, with \<open>ok\<close> the fate of its
  write), or the process restarts. Continuations may resume in any order, which covers the
  orders the event loop allows. \<open>fire\<close> is \<open>None\<close> for an event that cannot happen in the
  state.
\<close>

datatype event =
    AddCommand string string "string option" string int
  | ProcessQueue
  | Resume nat
  | SendResult nat bool
  | TimerFire nat bool
  | ClearQueue bool
  | Restart bool

definition removeAt :: "nat \<Rightarrow> 'a list \<Rightarrow> 'a list" where
  "removeAt i xs = take i xs @ drop (Suc i) xs"

fun resume :: "task \<Rightarrow> cq \<Rightarrow> cq option" where
  "resume AddCont s = Some (processQueue s)"
| "resume (AwaitSave1 a rest) s =
     (let s1 = issueSend a s in Some (s1\<lparr>tasks := tasks s1 @ [AwaitSend a rest]\<rparr>))"
| "resume (AwaitSend a rest) s = None"
| "resume (AwaitSave2 rest) s = Some (runLoop rest s)"
| "resume AwaitFinal s = Some s"
| "resume TimerCont s = Some (s\<lparr>saveTimeout := None\<rparr>)"
| "resume SaveImmCont s = Some (s\<lparr>tasks := tasks s @ [ClearCont]\<rparr>)"
| "resume ClearCont s = Some s"

fun sendResult :: "bool \<Rightarrow> task \<Rightarrow> cq \<Rightarrow> cq option" where
  "sendResult ok (AwaitSend a rest) s =
     (let s1 = finishAttempt ok a s in Some (s1\<lparr>tasks := tasks s1 @ [AwaitSave2 rest]\<rparr>))"
| "sendResult ok _ s = None"

fun fire :: "event \<Rightarrow> cq \<Rightarrow> cq option" where
  "fire (AddCommand dev cmd v newid now) s = Some (addCommand dev cmd v newid now s)"
| "fire ProcessQueue s = Some (processQueue s)"
| "fire (Resume i) s =
     (if i < length (tasks s) then resume (tasks s ! i) (s\<lparr>tasks := removeAt i (tasks s)\<rparr>)
      else None)"
| "fire (SendResult i ok) s =
     (if i < length (tasks s) then sendResult ok (tasks s ! i) (s\<lparr>tasks := removeAt i (tasks s)\<rparr>)
      else None)"
| "fire (TimerFire t ok) s = (if t \<in> set (timers s) then Some (timerFire t ok s) else None)"
| "fire (ClearQueue ok) s = Some (clearQueue ok s)"
| "fire (Restart ok) s = Some (restart ok s)"

fun run :: "event list \<Rightarrow> cq \<Rightarrow> cq option" where
  "run [] s = Some s"
| "run (e # es) s = (case fire e s of None \<Rightarrow> None | Some s' \<Rightarrow> run es s')"

definition reachable :: "cq \<Rightarrow> bool" where
  "reachable s = (\<exists>es. run es init_state = Some s)"

subsection \<open>Invariants of the queue\<close>

text \<open>
  What holds of every command object and of the durable store, and how the re-entrancy flag
  relates to the suspended continuations of \<^verbatim>\<open>processQueue\<close> that are still inside the loop.
\<close>

definition cmd_ok :: "QueuedCommand \<Rightarrow> bool" where
  "cmd_ok c = (retryCount c \<le> MAX_RETRIES \<and> status c \<noteq> success)"

definition heap_ok :: "cq \<Rightarrow> bool" where
  "heap_ok s = (\<forall>a. cmd_ok (heap s a))"

definition store_ok :: "cq \<Rightarrow> bool" where
  "store_ok s = (case store s of None \<Rightarrow> True | Some cs \<Rightarrow> list_all cmd_ok cs)"

fun isDrain :: "task \<Rightarrow> bool" where
  "isDrain (AwaitSave1 a rest) = True"
| "isDrain (AwaitSend a rest) = True"
| "isDrain (AwaitSave2 rest) = True"
| "isDrain _ = False"

definition activeDrains :: "cq \<Rightarrow> nat" where
  "activeDrains s = length (filter isDrain (tasks s))"

definition flag_ok :: "cq \<Rightarrow> bool" where
  "flag_ok s = (activeDrains s = (if processing s then 1 else 0))"

definition inv :: "cq \<Rightarrow> bool" where
  "inv s = (heap_ok s \<and> store_ok s \<and> flag_ok s)"

text \<open>
  What holds of the commands handed to the transport. References are below the next free
  address; a continuation that is about to call the transport refers to a command that is
  marked \<open>sending\<close> and whose attempt has been counted; so every command in the log of the
  transport has that form.
\<close>

fun taskRefs :: "task \<Rightarrow> nat list" where
  "taskRefs (AwaitSave1 a rest) = a # rest"
| "taskRefs (AwaitSend a rest) = a # rest"
| "taskRefs (AwaitSave2 rest) = rest"
| "taskRefs _ = []"

definition refs_ok :: "cq \<Rightarrow> bool" where
  "refs_ok s = ((\<forall>a\<in>set (queue s). a < nextRef s) \<and>
                (\<forall>t\<in>set (tasks s). \<forall>a\<in>set (taskRefs t). a < nextRef s))"

fun awaiting_ok :: "cq \<Rightarrow> task \<Rightarrow> bool" where
  "awaiting_ok s (AwaitSave1 a rest) = (status (heap s a) = sending \<and> 1 \<le> retryCount (heap s a))"
| "awaiting_ok s _ = True"

definition sending_ok :: "cq \<Rightarrow> bool" where
  "sending_ok s = (\<forall>t\<in>set (tasks s). awaiting_ok s t)"

definition sent_ok :: "cq \<Rightarrow> bool" where
  "sent_ok s = (\<forall>c\<in>set (sent s). status c = sending \<and> 1 \<le> retryCount c \<and> retryCount c \<le> MAX_RETRIES)"

definition inv2 :: "cq \<Rightarrow> bool" where
  "inv2 s = (refs_ok s \<and> sending_ok s \<and> sent_ok s)"

text \<open>The command as the transport sees it in an attempt, and uniqueness of ids in the queue.\<close>

definition sendingForm :: "QueuedCommand \<Rightarrow> QueuedCommand" where
  "sendingForm c = c\<lparr>retryCount := Suc (retryCount c), status := sending\<rparr>"

definition uniqueIds :: "cq \<Rightarrow> bool" where
  "uniqueIds s = distinct (map (\<lambda>a. cid (heap s a)) (queue s))"

subsection \<open>Example runs\<close>

text \<open>The scenario of the specification: command \<^verbatim>\<open>ARM\<close> for device \<^verbatim>\<open>D1\<close>, enqueued on a
  fresh queue.\<close>

definition enqueued :: cq where
  "enqueued = addCommand ''D1'' ''ARM'' None ''id1'' 1000 init_state"

text \<open>Two commands are enqueued; the first is delivered while a debounced save fires, and the
  second is being sent.\<close>

definition delivered_trace :: "event list" where
  "delivered_trace =
     [AddCommand ''D1'' ''ARM'' None ''id1'' 1000, AddCommand ''D2'' ''BUZZ'' (Some ''1'') ''id2'' 1001,
      Resume 0, TimerFire 2 True, Resume 1, SendResult 2 True, Resume 2]"

text \<open>Two passes fail and the third attempt of the command is in flight.\<close>

definition third_attempt_trace :: "event list" where
  "third_attempt_trace =
     [AddCommand ''D1'' ''ARM'' None ''id1'' 1000, Resume 0,
      Resume 0, SendResult 0 False, Resume 0, Resume 0,
      ProcessQueue, Resume 0, SendResult 0 False, Resume 0, Resume 0,
      ProcessQueue, Resume 0]"

text \<open>Several triggers of \<^verbatim>\<open>processQueue\<close> arrive while one pass waits for the transport.\<close>

definition concurrent_triggers_trace :: "event list" where
  "concurrent_triggers_trace =
     [AddCommand ''D1'' ''ARM'' None ''id1'' 1000, Resume 0,
      ProcessQueue, AddCommand ''D1'' ''DISARM'' None ''id2'' 1005, ProcessQueue,
      Resume 1, Resume 0, ProcessQueue]"

text \<open>A first command has been saved by the debounced timer; a second one is enqueued and its
  save is still pending.\<close>

definition saved_trace :: "event list" where
  "saved_trace = [AddCommand ''D1'' ''ARM'' None ''id1'' 1000, TimerFire 0 True, Resume 1,
                  AddCommand ''D1'' ''BUZZ'' None ''id2'' 2000]"

text \<open>The scenario as a run: the command is enqueued, and three passes fail, each triggered
  after the one before has ended.\<close>

definition three_failures_trace :: "event list" where
  "three_failures_trace =
     [AddCommand ''D1'' ''ARM'' None ''id1'' 1000, Resume 0,
      Resume 0, SendResult 0 False, Resume 0, Resume 0,
      ProcessQueue, Resume 0, SendResult 0 False, Resume 0, Resume 0,
      ProcessQueue, Resume 0, SendResult 0 False, Resume 0, Resume 0]"

text \<open>The process stops while the first attempt is in flight, after the debounced save has
  written the queue, and starts again.\<close>

definition crash_while_sending_trace :: "event list" where
  "crash_while_sending_trace =
     [AddCommand ''D1'' ''ARM'' None ''id1'' 1000, Resume 0, TimerFire 1 True, Restart True]"

text \<open>
  A command is enqueued and its first attempt is in flight when the debounced save fires
  (timer 1). While the write of that save is in progress the attempt fails: the pass schedules
  timer 2 and, at its end, timer 3, and remembers it. Then the write completes and the callback
  of timer 1 sets \<^verbatim>\<open>this.saveTimeout = null\<close> (line 131): timer 3 is scheduled and no handle
  refers to it.
\<close>

definition lost_handle_trace :: "event list" where
  "lost_handle_trace =
     [AddCommand ''D1'' ''ARM'' None ''id1'' 1000, Resume 0, Resume 0,
      TimerFire 1 True, SendResult 0 False, Resume 1, Resume 1, Resume 0]"

text \<open>After that, \<^verbatim>\<open>clearQueue\<close> is called and runs until it has returned.\<close>

definition clear_after_lost_handle_trace :: "event list" where
  "clear_after_lost_handle_trace = lost_handle_trace @ [ClearQueue True, Resume 0, Resume 0]"

section \<open>Credential cache and request coordination (src/services/api.ts)\<close>

text \<open>
  The file holds two versions of the module; the model follows the one with the in-memory
  token cache and the registry of pending requests (lines 199 to 512), which is the one the
  claims cite.
\<close>

subsection \<open>The cached token\<close>

text \<open>
  A promise is named by a handle. \<open>storeReads\<close> lists every \<^verbatim>\<open>AsyncStorage.getItem(AUTH_TOKEN_KEY)\<close>
  that \<^verbatim>\<open>initializeTokenCache\<close> has issued, with what the read delivers: the promise made by
  the \<open>n\<close>-th read has handle \<open>n\<close>. AsyncStorage serves its calls in the order they are issued,
  so a read delivers what the store held when it was issued. \<open>tokenStore\<close> is what
  AsyncStorage holds under \<^verbatim>\<open>AUTH_TOKEN_KEY\<close>.
\<close>

datatype 'a outcome = Resolved 'a | Rejected

record tokens =
  cachedAuthToken :: "string option"
  tokenCachePromise :: "nat option"
  tokenStore :: "string option"
  storeReads :: "string option outcome list"

text \<open>What an \<^verbatim>\<open>async\<close> function hands to its caller: a value it already has, or the outcome of
  a promise.\<close>

datatype answer = Now "string option" | Later nat

text \<open>\<open>readOk\<close> says whether the read of the store, if one is issued, will succeed.\<close>

definition initializeTokenCache :: "bool \<Rightarrow> tokens \<Rightarrow> answer \<times> tokens" where
  "initializeTokenCache readOk s =
     (case cachedAuthToken s of
        Some t \<Rightarrow> (Now (Some t), s)
      | None \<Rightarrow>
         (case tokenCachePromise s of
            Some p \<Rightarrow> (Later p, s)
          | None \<Rightarrow>
             (let p = length (storeReads s)
              in (Later p,
                  s\<lparr>storeReads := storeReads s @ [if readOk then Resolved (tokenStore s) else Rejected],
                    tokenCachePromise := Some p\<rparr>))))"

text \<open>The callbacks of the promise, run when the read is done: \<^verbatim>\<open>then\<close> stores the token,
  \<^verbatim>\<open>catch\<close> forgets the promise and answers \<^verbatim>\<open>null\<close>.\<close>

definition readDone :: "nat \<Rightarrow> tokens \<Rightarrow> tokens" where
  "readDone p s =
     (case storeReads s ! p of
        Resolved token \<Rightarrow> s\<lparr>cachedAuthToken := token\<rparr>
      | Rejected \<Rightarrow> s\<lparr>tokenCachePromise := None\<rparr>)"

definition promiseValue :: "tokens \<Rightarrow> nat \<Rightarrow> string option" where
  "promiseValue s p = (case storeReads s ! p of Resolved token \<Rightarrow> token | Rejected \<Rightarrow> None)"

definition updateCachedToken :: "string option \<Rightarrow> tokens \<Rightarrow> tokens" where
  "updateCachedToken token s = s\<lparr>cachedAuthToken := token, tokenCachePromise := None\<rparr>"

text \<open>The request interceptor: \<^verbatim>\<open>cachedAuthToken ?? await initializeTokenCache()\<close>.\<close>

definition interceptorToken :: "bool \<Rightarrow> tokens \<Rightarrow> answer \<times> tokens" where
  "interceptorToken readOk s =
     (case cachedAuthToken s of
        Some t \<Rightarrow> (Now (Some t), s)
      | None \<Rightarrow> initializeTokenCache readOk s)"

text \<open>What a caller ends up with.\<close>

definition received :: "tokens \<Rightarrow> answer \<Rightarrow> string option" where
  "received s a = (case a of Now v \<Rightarrow> v | Later p \<Rightarrow> promiseValue s p)"

text \<open>
  The response interceptor on status 401, in its two halves: up to the \<^verbatim>\<open>await\<close> of
  \<^verbatim>\<open>AsyncStorage.multiRemove\<close>, and after it. \<open>removeOk\<close> says whether the removal succeeds;
  when it is rejected the \<^verbatim>\<open>await\<close> throws and the rest of the handler does not run.
\<close>

definition on401_issue :: "bool \<Rightarrow> tokens \<Rightarrow> tokens" where
  "on401_issue removeOk s = (if removeOk then s\<lparr>tokenStore := None\<rparr> else s)"

definition on401_resume :: "bool \<Rightarrow> tokens \<Rightarrow> tokens" where
  "on401_resume removeOk s = (if removeOk then updateCachedToken None s else s)"

text \<open>Successive calls of \<^verbatim>\<open>initializeTokenCache\<close> with nothing in between.\<close>

fun tokenCalls :: "bool list \<Rightarrow> tokens \<Rightarrow> answer list \<times> tokens" where
  "tokenCalls [] s = ([], s)"
| "tokenCalls (readOk # rest) s =
     (let (a, s1) = initializeTokenCache readOk s;
          (as, s2) = tokenCalls rest s1
      in (a # as, s2))"

subsection \<open>The registry of pending requests\<close>

text \<open>
  \<open>requests\<close> lists the paths of the calls of \<^verbatim>\<open>api.get\<close> made by the read functions: the
  promise of the \<open>n\<close>-th call has handle \<open>n\<close>. \<open>pendingRequests\<close> is the \<^verbatim>\<open>Map\<close> of the source.
  One reading of \<^verbatim>\<open>Date.now()\<close> is taken for one call of a read function.
\<close>

record PendingRequest =
  promise :: nat
  registeredAt :: int

record net =
  pendingRequests :: "string \<rightharpoonup> PendingRequest"
  requests :: "string list"

definition REQUEST_CACHE_TTL :: int where
  "REQUEST_CACHE_TTL = 1000"

definition getCacheKey :: "string \<Rightarrow> string \<Rightarrow> string" where
  "getCacheKey url method = method @ '':'' @ url"

definition cleanupCache :: "int \<Rightarrow> net \<Rightarrow> net" where
  "cleanupCache now s =
     s\<lparr>pendingRequests :=
         (\<lambda>key. case pendingRequests s key of
                  None \<Rightarrow> None
                | Some v \<Rightarrow> if now - registeredAt v > REQUEST_CACHE_TTL then None else Some v)\<rparr>"

definition cleanupAndCache :: "string \<Rightarrow> nat \<Rightarrow> int \<Rightarrow> net \<Rightarrow> net" where
  "cleanupAndCache key p now s =
     (let s1 = cleanupCache now s
      in s1\<lparr>pendingRequests := (pendingRequests s1)(key \<mapsto> \<lparr>promise = p, registeredAt = now\<rparr>)\<rparr>)"

text \<open>The body that the four read functions share, for the path \<open>url\<close>.\<close>

definition freshGet :: "string \<Rightarrow> int \<Rightarrow> net \<Rightarrow> nat \<times> net" where
  "freshGet url now s =
     (let p = length (requests s)
      in (p, cleanupAndCache (getCacheKey url ''GET'') p now (s\<lparr>requests := requests s @ [url]\<rparr>)))"

definition dedupedGet :: "string \<Rightarrow> int \<Rightarrow> net \<Rightarrow> nat \<times> net" where
  "dedupedGet url now s =
     (case pendingRequests s (getCacheKey url ''GET'') of
        Some pendingReq \<Rightarrow>
          if now - registeredAt pendingReq < REQUEST_CACHE_TTL then (promise pendingReq, s)
          else freshGet url now s
      | None \<Rightarrow> freshGet url now s)"

definition getMyDevices :: "int \<Rightarrow> net \<Rightarrow> nat \<times> net" where
  "getMyDevices now s = dedupedGet ''/me/devices'' now s"




text \<open>The \<^verbatim>\<open>finally\<close> callback of the promise with handle \<open>p\<close>, run when it settles.\<close>

definition settle :: "nat \<Rightarrow> net \<Rightarrow> net" where
  "settle p s = s\<lparr>pendingRequests := (pendingRequests s)(getCacheKey (requests s ! p) ''GET'' := None)\<rparr>"

text \<open>Successive calls for one path at the given times, with nothing in between.\<close>

fun getCalls :: "string \<Rightarrow> int list \<Rightarrow> net \<Rightarrow> nat list \<times> net" where
  "getCalls url [] s = ([], s)"
| "getCalls url (now # rest) s =
     (let (p, s1) = dedupedGet url now s;
          (ps, s2) = getCalls url rest s1
      in (p # ps, s2))"

definition net0 :: net where
  "net0 = \<lparr>pendingRequests = Map.empty, requests = []\<rparr>"

definition cold :: tokens where
  "cold = \<lparr>cachedAuthToken = None, tokenCachePromise = None, tokenStore = Some ''tok'',
           storeReads = []\<rparr>"

definition loggedIn :: tokens where
  "loggedIn = \<lparr>cachedAuthToken = Some ''tok'', tokenCachePromise = None, tokenStore = Some ''tok'',
               storeReads = []\<rparr>"

section \<open>Change detection (src/utils/performance-utils.ts)\<close>

text \<open>
  The sources hold two versions of \<^verbatim>\<open>hashData\<close>: the one of
  \<^verbatim>\<open>src/utils/performance-utils.ts\<close>, which returns \<^verbatim>\<open>JSON.stringify(data)\<close>, and the one of
  \<^verbatim>\<open>unnamed/part_003\<close>, which walks the value and sorts the keys of objects. They are
  modelled as \<open>hashData_stringify\<close> and \<open>hashData_sorted\<close>.
\<close>

subsection \<open>JavaScript values\<close>

text \<open>
  Arrays and objects live in a heap and are referred to by address, so that a value can
  contain itself. The properties of an object are listed in the order in which
  \<^verbatim>\<open>Object.keys\<close> enumerates them (for keys that are not array indices, the order of
  insertion). Numbers are the integers that JavaScript prints in decimal notation; characters
  stand for the code units of a string.
\<close>

datatype jsval = JUndefined | JNull | JBool bool | JNum int | JStr string | JRef nat

datatype jsobj = JArray "jsval list" | JObject "(string \<times> jsval) list"

type_synonym jsheap = "nat \<Rightarrow> jsobj"

datatype jserror = TypeError | RangeError

fun digitsOf :: "nat \<Rightarrow> string" where
  "digitsOf n =
     (if n < 10 then [''0123456789'' ! n] else digitsOf (n div 10) @ [''0123456789'' ! (n mod 10)])"

definition showInt :: "int \<Rightarrow> string" where
  "showInt i = (if i < 0 then CHR ''-'' # digitsOf (nat (- i)) else digitsOf (nat i))"

text \<open>\<^verbatim>\<open>String(v)\<close> and \<^verbatim>\<open>typeof v\<close> for a value that is not a reference.\<close>

fun primString :: "jsval \<Rightarrow> string" where
  "primString JUndefined = ''undefined''"
| "primString JNull = ''null''"
| "primString (JBool b) = (if b then ''true'' else ''false'')"
| "primString (JNum i) = showInt i"
| "primString (JStr s) = s"
| "primString (JRef a) = ''[object Object]''"

fun typeOf :: "jsval \<Rightarrow> string" where
  "typeOf JUndefined = ''undefined''"
| "typeOf JNull = ''object''"
| "typeOf (JBool b) = ''boolean''"
| "typeOf (JNum i) = ''number''"
| "typeOf (JStr s) = ''string''"
| "typeOf (JRef a) = ''object''"

text \<open>\<^verbatim>\<open>strings.join(sep)\<close>\<close>

fun joinWith :: "string \<Rightarrow> string list \<Rightarrow> string" where
  "joinWith sep [] = []"
| "joinWith sep [x] = x"
| "joinWith sep (x # y # ys) = x @ sep @ joinWith sep (y # ys)"

text \<open>\<^verbatim>\<open>data[key]\<close>\<close>

definition getProp :: "(string \<times> jsval) list \<Rightarrow> string \<Rightarrow> jsval" where
  "getProp kvs key = (case map_of kvs key of Some v \<Rightarrow> v | None \<Rightarrow> JUndefined)"

subsection \<open>The version that sorts keys (unnamed/part\_003)\<close>

definition hashError :: "string \<Rightarrow> int \<Rightarrow> string" where
  "hashError ty now = ''[hash-error:'' @ ty @ '':'' @ showInt now @ '']''"

text \<open>
  The function calls itself for every element and property, so on a value that contains
  itself the calls nest until the call stack is full. The first argument is the number of
  nested calls of \<^verbatim>\<open>hashData\<close> the stack still has room for: with no room the call fails with
  a \<^verbatim>\<open>RangeError\<close> in the \<^verbatim>\<open>try\<close> block of the caller (\<open>None\<close>). \<open>hashTry\<close> is the \<^verbatim>\<open>try\<close>
  block, \<open>None\<close> when something in it throws; \<open>now\<close> is the reading of \<^verbatim>\<open>Date.now()\<close> in the
  \<^verbatim>\<open>catch\<close> block.
\<close>

fun hashData_sorted :: "nat \<Rightarrow> jsheap \<Rightarrow> int \<Rightarrow> jsval \<Rightarrow> string option"
  and hashTry :: "nat \<Rightarrow> jsheap \<Rightarrow> int \<Rightarrow> jsval \<Rightarrow> string option" where
  "hashData_sorted 0 h now v = None"
| "hashData_sorted (Suc n) h now v =
     Some (case hashTry n h now v of Some r \<Rightarrow> r | None \<Rightarrow> hashError (typeOf v) now)"
| "hashTry n h now v =
     (case v of
        JRef a \<Rightarrow>
          (case h a of
             JArray xs \<Rightarrow>
               map_option (\<lambda>rs. ''['' @ joinWith '','' rs @ '']'')
                 (those (map (hashData_sorted n h now) xs))
           | JObject kvs \<Rightarrow>
               map_option (\<lambda>pairs. ''{'' @ joinWith '','' pairs @ ''}'')
                 (those (map (\<lambda>key. map_option (\<lambda>r. key @ '':'' @ r)
                                       (hashData_sorted n h now (getProp kvs key)))
                             (sort (map fst kvs)))))
      | _ \<Rightarrow> Some (primString v))"

subsection \<open>The version that serialises (src/utils/performance-utils.ts)\<close>

text \<open>\<^verbatim>\<open>JSON.stringify\<close> of a string: quoted, with the escapes of JSON.\<close>

definition hexDigit :: "nat \<Rightarrow> char" where
  "hexDigit k = ''0123456789abcdef'' ! k"

definition escapeChar :: "char \<Rightarrow> string" where
  "escapeChar c =
     (if c = CHR 0x22 then [CHR 0x5C, CHR 0x22]
      else if c = CHR 0x5C then [CHR 0x5C, CHR 0x5C]
      else if c = CHR 0x08 then [CHR 0x5C, CHR ''b'']
      else if c = CHR 0x0C then [CHR 0x5C, CHR ''f'']
      else if c = CHR 0x0A then [CHR 0x5C, CHR ''n'']
      else if c = CHR 0x0D then [CHR 0x5C, CHR ''r'']
      else if c = CHR 0x09 then [CHR 0x5C, CHR ''t'']
      else if (of_char c :: nat) < 32
        then [CHR 0x5C, CHR ''u'', CHR ''0'', CHR ''0'',
              hexDigit (of_char c div 16), hexDigit (of_char c mod 16)]
      else [c])"

definition quote :: "string \<Rightarrow> string" where
  "quote s = CHR 0x22 # concat (map escapeChar s) @ [CHR 0x22]"

text \<open>The first error of a list of results, or all the values.\<close>

fun collect :: "('e + 'a) list \<Rightarrow> 'e + 'a list" where
  "collect [] = Inr []"
| "collect (Inl e # rs) = Inl e"
| "collect (Inr x # rs) = (case collect rs of Inl e \<Rightarrow> Inl e | Inr xs \<Rightarrow> Inr (x # xs))"

text \<open>
  \<^verbatim>\<open>JSON.stringify\<close>. The result \<open>None\<close> is \<^verbatim>\<open>undefined\<close>: an undefined element of an array is
  written \<^verbatim>\<open>null\<close> and an undefined property is left out. \<open>stack\<close> holds the objects being
  serialised; meeting one of them again is the \<^verbatim>\<open>TypeError\<close> for a circular structure. The
  first argument bounds the nesting, as the stack of the engine does.
\<close>

fun stringify :: "nat \<Rightarrow> jsheap \<Rightarrow> nat list \<Rightarrow> jsval \<Rightarrow> jserror + string option" where
  "stringify 0 h stack v = Inl RangeError"
| "stringify (Suc n) h stack v =
     (case v of
        JUndefined \<Rightarrow> Inr None
      | JStr s \<Rightarrow> Inr (Some (quote s))
      | JRef a \<Rightarrow>
          if a \<in> set stack then Inl TypeError
          else (case h a of
                  JArray xs \<Rightarrow>
                    (case collect (map (stringify n h (a # stack)) xs) of
                       Inl e \<Rightarrow> Inl e
                     | Inr rs \<Rightarrow>
                         Inr (Some (''['' @ joinWith '','' (map (\<lambda>r. case r of None \<Rightarrow> ''null'' | Some t \<Rightarrow> t) rs)
                                    @ '']'')))
                | JObject kvs \<Rightarrow>
                    (case collect (map (\<lambda>kv. stringify n h (a # stack) (snd kv)) kvs) of
                       Inl e \<Rightarrow> Inl e
                     | Inr rs \<Rightarrow>
                         Inr (Some (''{'' @ joinWith '','' (concat (map2 (\<lambda>kv r. case r of None \<Rightarrow> []
                                                          | Some t \<Rightarrow> [quote (fst kv) @ '':'' @ t]) kvs rs))
                                    @ ''}''))))
      | _ \<Rightarrow> Inr (Some (primString v)))"

text \<open>
  \<^verbatim>\<open>String(data)\<close>: an object gives \<^verbatim>\<open>[object Object]\<close>; an array joins the strings of its
  elements with commas, the empty string standing for \<^verbatim>\<open>null\<close>, \<^verbatim>\<open>undefined\<close> and an array
  that is already being joined.
\<close>

fun toStr :: "nat \<Rightarrow> jsheap \<Rightarrow> nat list \<Rightarrow> jsval \<Rightarrow> jserror + string" where
  "toStr 0 h stack v = Inl RangeError"
| "toStr (Suc n) h stack v =
     (case v of
        JRef a \<Rightarrow>
          (case h a of
             JObject kvs \<Rightarrow> Inr ''[object Object]''
           | JArray xs \<Rightarrow>
               if a \<in> set stack then Inr []
               else (case collect (map (\<lambda>x. if x = JUndefined \<or> x = JNull then Inr []
                                              else toStr n h (a # stack) x) xs) of
                       Inl e \<Rightarrow> Inl e
                     | Inr rs \<Rightarrow> Inr (joinWith '','' rs)))
      | _ \<Rightarrow> Inr (primString v))"

text \<open>\<open>None\<close> is the result \<^verbatim>\<open>undefined\<close>; \<open>Inl\<close> is an exception that leaves the function.\<close>

definition hashData_stringify :: "nat \<Rightarrow> jsheap \<Rightarrow> jsval \<Rightarrow> jserror + string option" where
  "hashData_stringify n h data =
     (case stringify n h [] data of
        Inr r \<Rightarrow> Inr r
      | Inl e \<Rightarrow> (case toStr n h [] data of Inl e' \<Rightarrow> Inl e' | Inr s \<Rightarrow> Inr (Some s)))"

subsection \<open>Example values\<close>

text \<open>
  Address 0: \<^verbatim>\<open>{a:1,b:2}\<close>; 1: \<^verbatim>\<open>{b:2,a:1}\<close>; 2: \<^verbatim>\<open>[1,2]\<close>; 3: \<^verbatim>\<open>[2,1]\<close>; 4: an object
  \<^verbatim>\<open>o\<close> with \<^verbatim>\<open>o.self = o\<close>; 5 and 6: \<^verbatim>\<open>[{x:1,y:[]}]\<close> and \<^verbatim>\<open>[{y:[],x:1}]\<close> with the inner objects
  at 7 and 8 and the empty arrays at 9 and 10.
\<close>

definition exampleHeap :: jsheap where
  "exampleHeap a =
     (if a = 0 then JObject [(''a'', JNum 1), (''b'', JNum 2)]
      else if a = 1 then JObject [(''b'', JNum 2), (''a'', JNum 1)]
      else if a = 2 then JArray [JNum 1, JNum 2]
      else if a = 3 then JArray [JNum 2, JNum 1]
      else if a = 4 then JObject [(''self'', JRef 4)]
      else if a = 5 then JArray [JRef 7]
      else if a = 6 then JArray [JRef 8]
      else if a = 7 then JObject [(''x'', JNum 1), (''y'', JRef 9)]
      else if a = 8 then JObject [(''y'', JRef 10), (''x'', JNum 1)]
      else JArray [])"

subsection \<open>Notions used in the statements about hashing\<close>

text \<open>Reading a decimal numeral back.\<close>

fun valueOf :: "string \<Rightarrow> nat" where
  "valueOf s = foldl (\<lambda>acc c. 10 * acc + (of_char c - 48)) 0 s"

text \<open>
  Equality up to the order of keys, for values that may contain themselves: a relation \<open>R\<close>
  on values such that related values are equal, or are arrays whose elements are related one
  by one, or are objects with the same set of keys whose properties are related key by key.
\<close>

definition keyOrderBisim :: "jsheap \<Rightarrow> (jsval \<Rightarrow> jsval \<Rightarrow> bool) \<Rightarrow> bool" where
  "keyOrderBisim h R =
     (\<forall>v w. R v w \<longrightarrow>
        v = w \<or>
        (\<exists>a b. v = JRef a \<and> w = JRef b \<and>
           (case (h a, h b) of
              (JArray xs, JArray ys) \<Rightarrow> list_all2 R xs ys
            | (JObject kvs, JObject kws) \<Rightarrow>
                distinct (map fst kvs) \<and> distinct (map fst kws) \<and>
                set (map fst kvs) = set (map fst kws) \<and>
                (\<forall>key\<in>set (map fst kvs). R (getProp kvs key) (getProp kws key))
            | _ \<Rightarrow> False)))"


text \<open>What the sorting version returns for an object whose only property is itself.\<close>

fun selfHash :: "nat \<Rightarrow> string \<Rightarrow> int \<Rightarrow> string" where
  "selfHash 0 k now = hashError ''object'' now"
| "selfHash (Suc n) k now = ''{'' @ k @ '':'' @ selfHash n k now @ ''}''"

section \<open>Proofs: invariants of the command queue\<close>

lemma saveQueue_fields [simp]:
  "heap (saveQueue s) = heap s" "queue (saveQueue s) = queue s"
  "processing (saveQueue s) = processing s" "store (saveQueue s) = store s"
  "tasks (saveQueue s) = tasks s" "nextRef (saveQueue s) = nextRef s"
  by (simp_all add: saveQueue_def clearTimeout_def Let_def split: option.split)

lemma removeById_fields [simp]:
  "heap (removeById i s) = heap s" "processing (removeById i s) = processing s"
  "store (removeById i s) = store s" "tasks (removeById i s) = tasks s"
  by (simp_all add: removeById_def)

lemma heap_ok_upd: "heap_ok s \<Longrightarrow> heap s' = heap s \<Longrightarrow> heap_ok s'"
  by (simp add: heap_ok_def)

lemma beginAttempt_fields [simp]:
  "queue (beginAttempt a s) = queue s" "processing (beginAttempt a s) = processing s"
  "store (beginAttempt a s) = store s" "tasks (beginAttempt a s) = tasks s"
  "heap (beginAttempt a s) = (heap s)(a := (heap s a)\<lparr>retryCount := Suc (retryCount (heap s a)), status := sending\<rparr>)"
  by (simp_all add: beginAttempt_def Let_def)

lemma finishAttempt_fields [simp]:
  "processing (finishAttempt ok a s) = processing s"
  "store (finishAttempt ok a s) = store s" "tasks (finishAttempt ok a s) = tasks s"
  "heap (finishAttempt ok a s) = (if ok then heap s else (heap s)(a := (heap s a)\<lparr>status := failed\<rparr>))"
  by (simp_all add: finishAttempt_def)

lemma issueSend_fields [simp]:
  "heap (issueSend a s) = heap s" "queue (issueSend a s) = queue s"
  "processing (issueSend a s) = processing s" "store (issueSend a s) = store s"
  "tasks (issueSend a s) = tasks s"
  by (simp_all add: issueSend_def)

lemma endDrain_fields [simp]:
  "heap (endDrain s) = heap s" "queue (endDrain s) = queue s" "processing (endDrain s) = False"
  "store (endDrain s) = store s" "tasks (endDrain s) = tasks s"
  by (simp_all add: endDrain_def)

lemma heap_ok_beginAttempt:
  "heap_ok s \<Longrightarrow> \<not> MAX_RETRIES \<le> retryCount (heap s a) \<Longrightarrow> heap_ok (beginAttempt a s)"
  by (auto simp: heap_ok_def cmd_ok_def)

lemma heap_ok_finishAttempt: "heap_ok s \<Longrightarrow> heap_ok (finishAttempt ok a s)"
  by (auto simp: heap_ok_def cmd_ok_def)

lemma runLoop_store [simp]: "store (runLoop pend s) = store s"
  by (induction pend arbitrary: s) (simp_all add: Let_def)

lemma heap_ok_runLoop: "heap_ok s \<Longrightarrow> heap_ok (runLoop pend s)"
proof (induction pend arbitrary: s)
  case Nil
  then show ?case by (simp add: Let_def heap_ok_def)
next
  case (Cons a rest)
  show ?case
  proof (cases "MAX_RETRIES \<le> retryCount (heap s a)")
    case True
    have "heap_ok (removeById (cid (heap s a)) s)" using Cons.prems by (simp add: heap_ok_def)
    then show ?thesis using True Cons.IH by simp
  next
    case False
    then have "heap_ok (beginAttempt a s)" using Cons.prems by (rule_tac heap_ok_beginAttempt)
    then show ?thesis using False by (simp add: Let_def heap_ok_def)
  qed
qed

lemma flag_ok_runLoop:
  "processing s \<Longrightarrow> activeDrains s = 0 \<Longrightarrow> flag_ok (runLoop pend s)"
proof (induction pend arbitrary: s)
  case Nil
  then show ?case by (simp add: Let_def flag_ok_def activeDrains_def)
next
  case (Cons a rest)
  show ?case
  proof (cases "MAX_RETRIES \<le> retryCount (heap s a)")
    case True
    have "processing (removeById (cid (heap s a)) s)" "activeDrains (removeById (cid (heap s a)) s) = 0"
      using Cons.prems by (simp_all add: activeDrains_def)
    then show ?thesis using True Cons.IH by simp
  next
    case False
    then show ?thesis using Cons.prems by (simp add: Let_def flag_ok_def activeDrains_def)
  qed
qed

lemma processQueue_store [simp]: "store (processQueue s) = store s"
  by (simp add: processQueue_def Let_def)

lemma heap_ok_processQueue: "heap_ok s \<Longrightarrow> heap_ok (processQueue s)"
proof -
  assume h: "heap_ok s"
  then have "heap_ok (s\<lparr>processing := True\<rparr>)" by (simp add: heap_ok_def)
  then show ?thesis using h by (simp add: processQueue_def Let_def heap_ok_runLoop)
qed

lemma flag_ok_processQueue: "flag_ok s \<Longrightarrow> flag_ok (processQueue s)"
  by (auto simp: processQueue_def Let_def flag_ok_def[of s] activeDrains_def intro!: flag_ok_runLoop)

lemma inv_processQueue: "inv s \<Longrightarrow> inv (processQueue s)"
  by (simp add: inv_def heap_ok_processQueue flag_ok_processQueue store_ok_def)

lemma filter_removeAt:
  "i < length ts \<Longrightarrow>
   length (filter P (removeAt i ts)) = length (filter P ts) - (if P (ts ! i) then 1 else 0)"
proof -
  assume i: "i < length ts"
  then have "ts = take i ts @ (ts ! i) # drop (Suc i) ts" by (simp add: id_take_nth_drop)
  then have "filter P ts = filter P (take i ts) @ filter P [ts ! i] @ filter P (drop (Suc i) ts)"
    by (metis append_Cons append_Nil filter_append)
  then show ?thesis by (simp add: removeAt_def)
qed

lemma filter_nth_pos: "i < length ts \<Longrightarrow> P (ts ! i) \<Longrightarrow> 0 < length (filter P ts)"
  by (metis filter_empty_conv length_greater_0_conv nth_mem)

lemma inv_addCommand: "inv s \<Longrightarrow> inv (addCommand dev cmd v newid now s)"
  by (auto simp: inv_def addCommand_def Let_def heap_ok_def cmd_ok_def store_ok_def flag_ok_def
      activeDrains_def MAX_RETRIES_def)

lemma snapshot_ok: "heap_ok s \<Longrightarrow> list_all cmd_ok (snapshot s)"
  by (simp add: snapshot_def heap_ok_def list_all_iff)

lemma inv_timerFire: "inv s \<Longrightarrow> inv (timerFire t ok s)"
  by (auto simp: inv_def timerFire_def Let_def heap_ok_def store_ok_def flag_ok_def
      activeDrains_def snapshot_def list_all_iff)

lemma inv_clearQueue: "inv s \<Longrightarrow> inv (clearQueue ok s)"
  by (auto simp: inv_def clearQueue_def saveQueueImmediate_def clearTimeout_def Let_def heap_ok_def
      store_ok_def flag_ok_def activeDrains_def snapshot_def split: option.splits)

lemma inv_restart: "inv s \<Longrightarrow> inv (restart ok s)"
  by (auto simp: inv_def restart_def init_def load_def heap_ok_def store_ok_def flag_ok_def
      activeDrains_def list_all_length split: option.splits)

lemma inv_resume:
  assumes "inv s" "i < length (tasks s)"
    and "resume (tasks s ! i) (s\<lparr>tasks := removeAt i (tasks s)\<rparr>) = Some s'"
  shows "inv s'"
proof -
  let ?s = "s\<lparr>tasks := removeAt i (tasks s)\<rparr>"
  have h: "heap_ok ?s" "store_ok ?s" using assms(1) by (simp_all add: inv_def heap_ok_def store_ok_def)
  have n: "activeDrains ?s = activeDrains s - (if isDrain (tasks s ! i) then 1 else 0)"
    using assms(2) by (simp add: activeDrains_def filter_removeAt)
  have f: "activeDrains s = (if processing s then 1 else 0)" using assms(1) by (simp add: inv_def flag_ok_def)
  have p: "isDrain (tasks s ! i) \<Longrightarrow> 0 < activeDrains s"
    unfolding activeDrains_def using assms(2) by (rule filter_nth_pos)
  show ?thesis
  proof (cases "tasks s ! i")
    case AddCont
    then have "flag_ok ?s" using n f by (simp add: flag_ok_def)
    then have "inv ?s" using h by (simp add: inv_def)
    then show ?thesis using assms(3) AddCont inv_processQueue by auto
  next
    case (AwaitSave1 a rest)
    then show ?thesis using assms(3) n f h p
      by (auto simp: inv_def heap_ok_def store_ok_def flag_ok_def activeDrains_def split: if_splits)
  next
    case (AwaitSend a rest)
    then show ?thesis using assms(3) by simp
  next
    case (AwaitSave2 rest)
    then have q: "processing ?s" "activeDrains ?s = 0" using n f p by (auto split: if_splits)
    have "s' = runLoop rest ?s" using assms(3) AwaitSave2 by simp
    then show ?thesis using flag_ok_runLoop[OF q] heap_ok_runLoop[OF h(1)] h(2)
      by (simp add: inv_def store_ok_def)
  next
    case AwaitFinal
    then show ?thesis using assms(3) n f h by (auto simp: inv_def flag_ok_def)
  next
    case TimerCont
    then show ?thesis using assms(3) n f h
      by (auto simp: inv_def flag_ok_def heap_ok_def store_ok_def activeDrains_def)
  next
    case SaveImmCont
    then show ?thesis using assms(3) n f h
      by (auto simp: inv_def flag_ok_def heap_ok_def store_ok_def activeDrains_def)
  next
    case ClearCont
    then show ?thesis using assms(3) n f h by (auto simp: inv_def flag_ok_def)
  qed
qed

lemma inv_sendResult:
  assumes "inv s" "i < length (tasks s)"
    and "sendResult ok (tasks s ! i) (s\<lparr>tasks := removeAt i (tasks s)\<rparr>) = Some s'"
  shows "inv s'"
proof -
  let ?s = "s\<lparr>tasks := removeAt i (tasks s)\<rparr>"
  have h: "heap_ok ?s" "store_ok ?s" using assms(1) by (simp_all add: inv_def heap_ok_def store_ok_def)
  have n: "activeDrains ?s = activeDrains s - (if isDrain (tasks s ! i) then 1 else 0)"
    using assms(2) by (simp add: activeDrains_def filter_removeAt)
  have f: "activeDrains s = (if processing s then 1 else 0)" using assms(1) by (simp add: inv_def flag_ok_def)
  obtain a rest where t: "tasks s ! i = AwaitSend a rest"
    using assms(3) by (cases "tasks s ! i") simp_all
  have p: "0 < activeDrains s"
    unfolding activeDrains_def using assms(2) by (rule filter_nth_pos) (simp add: t)
  have s': "s' = (finishAttempt ok a ?s)\<lparr>tasks := tasks (finishAttempt ok a ?s) @ [AwaitSave2 rest]\<rparr>"
    using assms(3) t by (simp add: Let_def)
  have "heap_ok (finishAttempt ok a ?s)" using h(1) by (rule heap_ok_finishAttempt)
  then have "heap_ok s'" unfolding s' by (simp add: heap_ok_def)
  moreover have "store_ok s'" using h(2) unfolding s' by (simp add: store_ok_def)
  moreover have "flag_ok s'" using n f t p unfolding s'
    by (auto simp: flag_ok_def activeDrains_def split: if_splits)
  ultimately show ?thesis by (simp add: inv_def)
qed

lemma inv_fire: "inv s \<Longrightarrow> fire e s = Some s' \<Longrightarrow> inv s'"
  by (cases e)
    (auto simp: inv_addCommand inv_processQueue inv_timerFire inv_clearQueue inv_restart
      split: if_splits elim: inv_resume inv_sendResult)

lemma inv_run: "inv s \<Longrightarrow> run es s = Some s' \<Longrightarrow> inv s'"
  by (induction es arbitrary: s) (auto split: option.splits dest: inv_fire)

lemma inv_init_state: "inv init_state"
  by (simp add: inv_def init_state_def heap_ok_def cmd_ok_def blank_def store_ok_def flag_ok_def
      activeDrains_def)

lemma reachable_inv: "reachable s \<Longrightarrow> inv s"
  unfolding reachable_def using inv_run[OF inv_init_state] by blast

section \<open>Proofs: drain passes\<close>

lemma saveQueue_sent [simp]: "sent (saveQueue s) = sent s"
  by (simp add: saveQueue_def clearTimeout_def Let_def split: option.split)

lemma attempts_saveQueue [simp]: "attempts (saveQueue s) i = attempts s i"
  by (simp add: attempts_def)

lemma sent_fields [simp]:
  "sent (beginAttempt a s) = sent s" "sent (finishAttempt ok a s) = sent s"
  "sent (removeById j s) = sent s" "sent (endDrain s) = sent s"
  "sent (issueSend a s) = sent s @ [heap s a]"
  by (simp_all add: beginAttempt_def finishAttempt_def removeById_def endDrain_def issueSend_def Let_def)

text \<open>What one iteration does to the store of objects, the queue and the log.\<close>

lemma iteration_cid [simp]: "cid (heap (iteration send a s) x) = cid (heap s x)"
  by (simp add: iteration_def Let_def)

lemma iteration_other: "x \<noteq> a \<Longrightarrow> heap (iteration send a s) x = heap s x"
  by (simp add: iteration_def Let_def)

lemma iteration_processing [simp]: "processing (iteration send a s) = processing s"
  by (simp add: iteration_def Let_def)

lemma iteration_queue:
  "\<exists>P. queue (iteration send a s) = filter P (queue s) \<and>
       (\<forall>x. cid (heap s x) \<noteq> cid (heap s a) \<longrightarrow> P x)"
proof (cases "MAX_RETRIES \<le> retryCount (heap s a) \<or>
              send ((heap s a)\<lparr>retryCount := Suc (retryCount (heap s a)), status := sending\<rparr>)")
  case True
  then have "queue (iteration send a s) = filter (\<lambda>c. cid (heap s c) \<noteq> cid (heap s a)) (queue s)"
    by (auto simp: iteration_def Let_def removeById_def finishAttempt_def issueSend_def
        intro: filter_cong)
  then show ?thesis by blast
next
  case False
  then have "queue (iteration send a s) = filter (\<lambda>c. True) (queue s)"
    by (auto simp: iteration_def Let_def removeById_def finishAttempt_def issueSend_def)
  then show ?thesis by blast
qed

lemma iteration_attempts:
  "attempts (iteration send a s) i =
     attempts s i + (if retryCount (heap s a) < MAX_RETRIES \<and> cid (heap s a) = i then 1 else 0)"
  by (auto simp: iteration_def Let_def attempts_def)

lemma iteration_dropped:
  "MAX_RETRIES \<le> retryCount (heap s a) \<Longrightarrow>
     a \<notin> set (queue (iteration send a s)) \<and> heap (iteration send a s) = heap s"
  by (simp add: iteration_def removeById_def)

lemma iteration_delivered:
  "retryCount (heap s a) < MAX_RETRIES \<Longrightarrow>
   send ((heap s a)\<lparr>retryCount := Suc (retryCount (heap s a)), status := sending\<rparr>) \<Longrightarrow>
     a \<notin> set (queue (iteration send a s))"
  by (simp add: iteration_def Let_def removeById_def finishAttempt_def issueSend_def)

lemma iteration_failed:
  "retryCount (heap s a) < MAX_RETRIES \<Longrightarrow>
   \<not> send ((heap s a)\<lparr>retryCount := Suc (retryCount (heap s a)), status := sending\<rparr>) \<Longrightarrow>
     queue (iteration send a s) = queue s \<and>
     heap (iteration send a s) a = (heap s a)\<lparr>retryCount := Suc (retryCount (heap s a)), status := failed\<rparr>"
  by (simp add: iteration_def Let_def removeById_def finishAttempt_def issueSend_def)

text \<open>The whole loop.\<close>

lemma drainLoop_cid [simp]: "cid (heap (drainLoop send pend s) x) = cid (heap s x)"
  by (induction pend arbitrary: s) simp_all

lemma drainLoop_processing [simp]: "processing (drainLoop send pend s) = False"
  by (induction pend arbitrary: s) simp_all

lemma drainLoop_other: "x \<notin> set pend \<Longrightarrow> heap (drainLoop send pend s) x = heap s x"
  by (induction pend arbitrary: s) (simp_all add: iteration_other)

lemma drainLoop_queue:
  "\<exists>P. queue (drainLoop send pend s) = filter P (queue s) \<and>
       (\<forall>x. (\<forall>a\<in>set pend. cid (heap s x) \<noteq> cid (heap s a)) \<longrightarrow> P x)"
proof (induction pend arbitrary: s)
  case Nil
  have "queue (drainLoop send [] s) = filter (\<lambda>c. True) (queue s)" by simp
  then show ?case by blast
next
  case (Cons a rest)
  obtain P where P: "queue (iteration send a s) = filter P (queue s)"
    "\<forall>x. cid (heap s x) \<noteq> cid (heap s a) \<longrightarrow> P x"
    using iteration_queue by blast
  obtain Q where Q: "queue (drainLoop send rest (iteration send a s)) = filter Q (queue (iteration send a s))"
    "\<forall>x. (\<forall>b\<in>set rest. cid (heap (iteration send a s) x) \<noteq> cid (heap (iteration send a s) b)) \<longrightarrow> Q x"
    using Cons.IH by blast
  have "queue (drainLoop send (a # rest) s) = filter (\<lambda>x. P x \<and> Q x) (queue s)"
    using P(1) Q(1) by (simp add: conj_commute)
  moreover have "\<forall>x. (\<forall>b\<in>set (a # rest). cid (heap s x) \<noteq> cid (heap s b)) \<longrightarrow> P x \<and> Q x"
    using P(2) Q(2) by simp
  ultimately show ?case by blast
qed

lemma drainLoop_subset: "set (queue (drainLoop send pend s)) \<subseteq> set (queue s)"
  using drainLoop_queue[of send pend s] by auto

lemma drainLoop_keeps:
  "x \<in> set (queue s) \<Longrightarrow> \<forall>a\<in>set pend. cid (heap s x) \<noteq> cid (heap s a) \<Longrightarrow>
     x \<in> set (queue (drainLoop send pend s))"
  using drainLoop_queue[of send pend s] by auto

lemma drainLoop_distinct:
  "distinct (map (\<lambda>a. cid (heap s a)) (queue s)) \<Longrightarrow>
     distinct (map (\<lambda>a. cid (heap (drainLoop send pend s) a)) (queue (drainLoop send pend s)))"
  using drainLoop_queue[of send pend s] by (auto simp: distinct_map_filter)

lemma drainLoop_attempts_other:
  "\<forall>a\<in>set pend. cid (heap s a) \<noteq> i \<Longrightarrow> attempts (drainLoop send pend s) i = attempts s i"
proof (induction pend arbitrary: s)
  case Nil
  then show ?case by (simp add: attempts_def)
next
  case (Cons a pend)
  have "attempts (iteration send a s) i = attempts s i"
    using Cons.prems by (simp add: iteration_attempts)
  moreover have "\<forall>b\<in>set pend. cid (heap (iteration send a s) b) \<noteq> i" using Cons.prems by simp
  ultimately show ?case using Cons.IH by simp
qed

text \<open>The fate of one command of \<^verbatim>\<open>pendingCommands\<close> in a pass, when ids are unique.\<close>

lemma drainLoop_fate:
  assumes "distinct (map (\<lambda>a. cid (heap s a)) pend)" "a \<in> set pend"
  shows "(MAX_RETRIES \<le> retryCount (heap s a) \<longrightarrow>
            a \<notin> set (queue (drainLoop send pend s)) \<and>
            attempts (drainLoop send pend s) (cid (heap s a)) = attempts s (cid (heap s a))) \<and>
         (retryCount (heap s a) < MAX_RETRIES \<longrightarrow>
            attempts (drainLoop send pend s) (cid (heap s a)) = Suc (attempts s (cid (heap s a))) \<and>
            (send (sendingForm (heap s a)) \<longrightarrow> a \<notin> set (queue (drainLoop send pend s))) \<and>
            (\<not> send (sendingForm (heap s a)) \<longrightarrow>
               heap (drainLoop send pend s) a = (sendingForm (heap s a))\<lparr>status := failed\<rparr> \<and>
               (a \<in> set (queue s) \<longrightarrow> a \<in> set (queue (drainLoop send pend s)))))"
  using assms
proof (induction pend arbitrary: s)
  case Nil
  then show ?case by simp
next
  case (Cons b rest)
  let ?s = "iteration send b s"
  show ?case
  proof (cases "a = b")
    case True
    have "cid (heap s b) \<notin> (\<lambda>a. cid (heap s a)) ` set rest" using Cons.prems(1) by simp
    then have "\<forall>x\<in>set rest. cid (heap s x) \<noteq> cid (heap s b)" by (metis imageI)
    then have nr: "\<forall>x\<in>set rest. cid (heap ?s x) \<noteq> cid (heap ?s a)" "a \<notin> set rest"
      using True by auto
    have att: "attempts (drainLoop send rest ?s) (cid (heap s a)) = attempts ?s (cid (heap s a))"
      using nr(1) by (intro drainLoop_attempts_other) simp
    have sub: "set (queue (drainLoop send rest ?s)) \<subseteq> set (queue ?s)" by (rule drainLoop_subset)
    have oth: "heap (drainLoop send rest ?s) a = heap ?s a" using nr(2) by (rule drainLoop_other)
    have keep: "a \<in> set (queue ?s) \<Longrightarrow> a \<in> set (queue (drainLoop send rest ?s))"
      using nr(1) by (intro drainLoop_keeps) auto
    show ?thesis
      using att sub oth keep iteration_dropped[of s a send] iteration_delivered[of s a send]
        iteration_failed[of s a send] iteration_attempts[of send a s "cid (heap s a)"] True
      by (auto simp: sendingForm_def)
  next
    case False
    then have a: "a \<in> set rest" using Cons.prems(2) by simp
    have d: "distinct (map (\<lambda>a. cid (heap ?s a)) rest)" using Cons.prems(1) by simp
    have "cid (heap s b) \<notin> (\<lambda>a. cid (heap s a)) ` set rest" using Cons.prems(1) by simp
    then have ne: "cid (heap s a) \<noteq> cid (heap s b)" using a by (metis imageI)
    have h: "heap ?s a = heap s a" using False by (simp add: iteration_other)
    have att: "attempts ?s (cid (heap s a)) = attempts s (cid (heap s a))"
      using ne by (simp add: iteration_attempts)
    have q: "a \<in> set (queue s) \<Longrightarrow> a \<in> set (queue ?s)"
      using iteration_queue[of send b s] ne by auto
    show ?thesis using Cons.IH[OF d a] h att q by simp
  qed
qed

lemma drain_subset: "set (queue (drain send s)) \<subseteq> set (queue s)"
  using drainLoop_subset[of send _ "s\<lparr>processing := True\<rparr>"] by (auto simp: drain_def Let_def)

lemma drains_subset: "set (queue (drains sends s)) \<subseteq> set (queue s)"
proof (induction sends arbitrary: s)
  case Nil
  show ?case by simp
next
  case (Cons f fs)
  show ?case using Cons.IH[of "drain f s"] drain_subset[of f s] by auto
qed

lemma drain_cid [simp]: "cid (heap (drain send s) x) = cid (heap s x)"
  by (simp add: drain_def Let_def)

lemma drain_idle: "\<not> processing s \<Longrightarrow> \<not> processing (drain send s)"
  by (simp add: drain_def Let_def)

lemma drain_uniqueIds: "uniqueIds s \<Longrightarrow> uniqueIds (drain send s)"
  unfolding uniqueIds_def drain_def Let_def
  using drainLoop_distinct[of "s\<lparr>processing := True\<rparr>" send] by simp

lemma drain_fate:
  assumes "\<not> processing s" "uniqueIds s" "a \<in> set (queue s)" "eligible s a"
  shows "(MAX_RETRIES \<le> retryCount (heap s a) \<longrightarrow>
            a \<notin> set (queue (drain send s)) \<and>
            attempts (drain send s) (cid (heap s a)) = attempts s (cid (heap s a))) \<and>
         (retryCount (heap s a) < MAX_RETRIES \<longrightarrow>
            attempts (drain send s) (cid (heap s a)) = Suc (attempts s (cid (heap s a))) \<and>
            (send (sendingForm (heap s a)) \<longrightarrow> a \<notin> set (queue (drain send s))) \<and>
            (\<not> send (sendingForm (heap s a)) \<longrightarrow>
               heap (drain send s) a = (sendingForm (heap s a))\<lparr>status := failed\<rparr> \<and>
               a \<in> set (queue (drain send s))))"
proof -
  let ?s = "s\<lparr>processing := True\<rparr>"
  let ?pend = "filter (eligible ?s) (queue ?s)"
  have d: "distinct (map (\<lambda>a. cid (heap ?s a)) ?pend)"
    using assms(2) by (simp add: uniqueIds_def distinct_map_filter)
  have m: "a \<in> set ?pend" using assms(3,4) by (simp add: eligible_def)
  have e: "drain send s = drainLoop send ?pend ?s"
    using assms(1,3) by (auto simp: drain_def Let_def)
  have att: "attempts ?s = attempts s" by (simp add: attempts_def fun_eq_iff)
  show ?thesis using drainLoop_fate[OF d m, of send] assms(3) unfolding e att by simp
qed

text \<open>One pass without network, for a command below and at the ceiling.\<close>

lemma drain_noNetwork_below:
  assumes "\<not> processing s" "uniqueIds s" "a \<in> set (queue s)" "eligible s a"
    and "retryCount (heap s a) < MAX_RETRIES"
  shows "\<not> processing (drain noNetwork s) \<and> uniqueIds (drain noNetwork s) \<and>
         a \<in> set (queue (drain noNetwork s)) \<and>
         status (heap (drain noNetwork s) a) = failed \<and>
         retryCount (heap (drain noNetwork s) a) = Suc (retryCount (heap s a)) \<and>
         attempts (drain noNetwork s) (cid (heap s a)) = Suc (attempts s (cid (heap s a)))"
  using drain_fate[OF assms(1-4), of noNetwork] assms(5) drain_idle[OF assms(1)] drain_uniqueIds[OF assms(2)]
  by (simp add: noNetwork_def sendingForm_def)

lemma drain_at_ceiling:
  assumes "\<not> processing s" "uniqueIds s" "a \<in> set (queue s)" "eligible s a"
    and "MAX_RETRIES \<le> retryCount (heap s a)"
  shows "a \<notin> set (queue (drain send s)) \<and>
         attempts (drain send s) (cid (heap s a)) = attempts s (cid (heap s a))"
  using drain_fate[OF assms(1-4), of send] assms(5) by simp

text \<open>With any transports: a command is gone once enough passes have considered it.\<close>

lemma drains_gone:
  assumes "\<not> processing s" "uniqueIds s" "a \<in> set (queue s)" "eligible s a"
    and "retryCount (heap s a) \<le> MAX_RETRIES"
    and "MAX_RETRIES < retryCount (heap s a) + length sends"
  shows "a \<notin> set (queue (drains sends s))"
  using assms
proof (induction sends arbitrary: s)
  case Nil
  then show ?case by simp
next
  case (Cons f fs)
  let ?s = "drain f s"
  note fate = drain_fate[OF Cons.prems(1-4), of f]
  show ?case
  proof (cases "a \<in> set (queue ?s)")
    case False
    then show ?thesis using drains_subset[of fs ?s] by auto
  next
    case True
    then have lt: "retryCount (heap s a) < MAX_RETRIES" and nf: "\<not> f (sendingForm (heap s a))"
      using fate by (auto simp: not_le[symmetric])
    then have h: "heap ?s a = (sendingForm (heap s a))\<lparr>status := failed\<rparr>" using fate by simp
    have "a \<notin> set (queue (drains fs ?s))"
    proof (rule Cons.IH)
      show "\<not> processing ?s" using Cons.prems(1) by (rule drain_idle)
      show "uniqueIds ?s" using Cons.prems(2) by (rule drain_uniqueIds)
      show "a \<in> set (queue ?s)" by (rule True)
      show "eligible ?s a" using h by (simp add: eligible_def)
      show "retryCount (heap ?s a) \<le> MAX_RETRIES" using h lt by (simp add: sendingForm_def)
      show "MAX_RETRIES < retryCount (heap ?s a) + length fs"
        using h Cons.prems(6) by (simp add: sendingForm_def)
    qed
    then show ?thesis by simp
  qed
qed

text \<open>A pass that nothing interleaves with is a run of the interleaving model.\<close>

lemma run_append:
  "run (es @ es') s = (case run es s of None \<Rightarrow> None | Some s' \<Rightarrow> run es' s')"
  by (induction es arbitrary: s) (simp_all split: option.split)

lemma removeAt_last [simp]: "removeAt (length ts) (ts @ [x]) = ts"
  by (simp add: removeAt_def)

lemma tasks_restore: "tasks s = ts \<Longrightarrow> s\<lparr>tasks := ts\<rparr> = s"
  by simp

lemma iteration_tasks [simp]: "tasks (iteration send a s) = tasks s"
  by (simp add: iteration_def Let_def)

lemma runLoop_run: "\<exists>es. run es (runLoop pend s) = Some (drainLoop send pend s)"
proof (induction pend arbitrary: s)
  case Nil
  have "run [Resume (length (tasks s))] (runLoop [] s) = Some (drainLoop send [] s)"
    by (simp add: Let_def tasks_restore)
  then show ?case by blast
next
  case (Cons a rest)
  show ?case
  proof (cases "MAX_RETRIES \<le> retryCount (heap s a)")
    case True
    then show ?thesis using Cons.IH[of "removeById (cid (heap s a)) s"] by (simp add: iteration_def)
  next
    case False
    let ?n = "length (tasks s)"
    let ?b = "issueSend a (beginAttempt a s)"
    let ?ok = "send (heap ?b a)"
    have "run [Resume ?n, SendResult ?n ?ok, Resume ?n] (runLoop (a # rest) s)
            = Some (runLoop rest (iteration send a s))"
      using False by (simp add: Let_def tasks_restore iteration_def)
    moreover obtain es where "run es (runLoop rest (iteration send a s))
            = Some (drainLoop send rest (iteration send a s))"
      using Cons.IH by blast
    ultimately have "run ([Resume ?n, SendResult ?n ?ok, Resume ?n] @ es) (runLoop (a # rest) s)
            = Some (drainLoop send (a # rest) s)"
      unfolding run_append by simp
    then show ?thesis by blast
  qed
qed

lemma drain_run: "\<exists>es. run es s = Some (drain send s)"
proof (cases "processing s \<or> queue s = []")
  case True
  then have "run [] s = Some (drain send s)" by (simp add: drain_def)
  then show ?thesis by blast
next
  case False
  let ?s = "s\<lparr>processing := True\<rparr>"
  obtain es where "run es (runLoop (filter (eligible ?s) (queue ?s)) ?s)
      = Some (drainLoop send (filter (eligible ?s) (queue ?s)) ?s)"
    using runLoop_run by blast
  then have "run (ProcessQueue # es) s = Some (drain send s)"
    using False by (simp add: drain_def processQueue_def Let_def)
  then show ?thesis by blast
qed

lemma reachable_run: "reachable s \<Longrightarrow> run es s = Some s' \<Longrightarrow> reachable s'"
  unfolding reachable_def using run_append by (metis option.simps(5))

lemma reachable_drain: "reachable s \<Longrightarrow> reachable (drain send s)"
  using drain_run reachable_run by blast

lemma reachable_drains: "reachable s \<Longrightarrow> reachable (drains sends s)"
  by (induction sends arbitrary: s) (simp_all add: reachable_drain)

text \<open>A pass changes nothing of a queue with no pending or failed command.\<close>

lemma drain_nothing_eligible:
  assumes "\<forall>a\<in>set (queue s). \<not> eligible s a"
  shows "queue (drain send s) = queue s \<and> heap (drain send s) = heap s"
proof -
  have "filter (eligible (s\<lparr>processing := True\<rparr>)) (queue s) = []"
    using assms by (simp add: eligible_def filter_empty_conv)
  then show ?thesis by (simp add: drain_def Let_def)
qed

lemma drains_nothing_eligible:
  "\<forall>a\<in>set (queue s). \<not> eligible s a \<Longrightarrow>
     queue (drains sends s) = queue s \<and> heap (drains sends s) = heap s"
proof (induction sends arbitrary: s)
  case Nil
  show ?case by simp
next
  case (Cons f fs)
  have d: "queue (drain f s) = queue s \<and> heap (drain f s) = heap s"
    using Cons.prems by (rule drain_nothing_eligible)
  then have "\<forall>a\<in>set (queue (drain f s)). \<not> eligible (drain f s) a"
    using Cons.prems by (simp add: eligible_def)
  then show ?case using Cons.IH[of "drain f s"] d by simp
qed

section \<open>Proofs: what the transport is handed\<close>

lemma awaiting_ok_nondrain: "\<not> isDrain t \<Longrightarrow> awaiting_ok s t"
  by (cases t) simp_all

lemma no_drains: "activeDrains s = 0 \<Longrightarrow> \<forall>t\<in>set (tasks s). \<not> isDrain t"
  by (simp add: activeDrains_def filter_empty_conv)

lemma nextRef_fields [simp]:
  "nextRef (removeById i s) = nextRef s" "nextRef (beginAttempt a s) = nextRef s"
  "nextRef (endDrain s) = nextRef s" "nextRef (finishAttempt ok a s) = nextRef s"
  "nextRef (issueSend a s) = nextRef s"
  by (simp_all add: removeById_def beginAttempt_def endDrain_def finishAttempt_def issueSend_def Let_def)

lemma queue_finishAttempt: "set (queue (finishAttempt ok a s)) \<subseteq> set (queue s)"
  by (auto simp: finishAttempt_def removeById_def)

lemma inv2_runLoop:
  assumes "refs_ok s" "\<forall>a\<in>set pend. a < nextRef s" "\<forall>t\<in>set (tasks s). \<not> isDrain t" "sent_ok s"
  shows "inv2 (runLoop pend s)"
  using assms
proof (induction pend arbitrary: s)
  case Nil
  then show ?case
    by (auto simp: inv2_def refs_ok_def sending_ok_def sent_ok_def Let_def awaiting_ok_nondrain
        endDrain_def)
next
  case (Cons a rest)
  show ?case
  proof (cases "MAX_RETRIES \<le> retryCount (heap s a)")
    case True
    have "inv2 (runLoop rest (removeById (cid (heap s a)) s))"
    proof (rule Cons.IH)
      show "refs_ok (removeById (cid (heap s a)) s)"
        using Cons.prems(1) by (auto simp: refs_ok_def removeById_def)
      show "\<forall>b\<in>set rest. b < nextRef (removeById (cid (heap s a)) s)" using Cons.prems(2) by simp
      show "\<forall>t\<in>set (tasks (removeById (cid (heap s a)) s)). \<not> isDrain t" using Cons.prems(3) by simp
      show "sent_ok (removeById (cid (heap s a)) s)" using Cons.prems(4) by (simp add: sent_ok_def)
    qed
    then show ?thesis using True by simp
  next
    case False
    have 1: "refs_ok ((beginAttempt a s)\<lparr>tasks := tasks (beginAttempt a s) @ [AwaitSave1 a rest]\<rparr>)"
      using Cons.prems(1,2) by (auto simp: refs_ok_def)
    have 2: "sending_ok ((beginAttempt a s)\<lparr>tasks := tasks (beginAttempt a s) @ [AwaitSave1 a rest]\<rparr>)"
      using Cons.prems(3) by (auto simp: sending_ok_def awaiting_ok_nondrain)
    have 3: "sent_ok ((beginAttempt a s)\<lparr>tasks := tasks (beginAttempt a s) @ [AwaitSave1 a rest]\<rparr>)"
      using Cons.prems(4) by (simp add: sent_ok_def)
    show ?thesis using False 1 2 3 by (simp add: inv2_def Let_def)
  qed
qed

lemma inv2_processQueue:
  assumes "inv2 s" "flag_ok s"
  shows "inv2 (processQueue s)"
proof (cases "processing s \<or> queue s = []")
  case True
  then show ?thesis using assms(1) by (simp add: processQueue_def)
next
  case False
  let ?s = "s\<lparr>processing := True\<rparr>"
  have n: "\<forall>t\<in>set (tasks ?s). \<not> isDrain t"
    using assms(2) False no_drains[of s] by (simp add: flag_ok_def)
  have "inv2 (runLoop (filter (eligible ?s) (queue ?s)) ?s)"
  proof (rule inv2_runLoop)
    show "refs_ok ?s" using assms(1) by (simp add: inv2_def refs_ok_def)
    show "\<forall>a\<in>set (filter (eligible ?s) (queue ?s)). a < nextRef ?s"
      using assms(1) by (simp add: inv2_def refs_ok_def)
    show "\<forall>t\<in>set (tasks ?s). \<not> isDrain t" by (rule n)
    show "sent_ok ?s" using assms(1) by (simp add: inv2_def sent_ok_def)
  qed
  then show ?thesis using False by (simp add: processQueue_def Let_def)
qed

lemma set_removeAt: "set (removeAt i ts) \<subseteq> set ts"
  unfolding removeAt_def using set_take_subset[of i ts] set_drop_subset[of "Suc i" ts] by auto

lemma awaiting_ok_upd [simp]:
  "awaiting_ok (s\<lparr>tasks := ts\<rparr>) t = awaiting_ok s t"
  "awaiting_ok (s\<lparr>timers := tm\<rparr>) t = awaiting_ok s t"
  "awaiting_ok (s\<lparr>store := st\<rparr>) t = awaiting_ok s t"
  "awaiting_ok (s\<lparr>sent := sn\<rparr>) t = awaiting_ok s t"
  "awaiting_ok (s\<lparr>saveTimeout := sv\<rparr>) t = awaiting_ok s t"
  "awaiting_ok (s\<lparr>queue := q\<rparr>) t = awaiting_ok s t"
  "awaiting_ok (s\<lparr>processing := p\<rparr>) t = awaiting_ok s t"
  by (cases t; simp)+

lemma inv2_drop_task:
  assumes "inv2 s"
  shows "inv2 (s\<lparr>tasks := removeAt i (tasks s)\<rparr>)"
proof -
  have sub: "set (removeAt i (tasks s)) \<subseteq> set (tasks s)" by (rule set_removeAt)
  have "refs_ok (s\<lparr>tasks := removeAt i (tasks s)\<rparr>)"
    using assms sub by (auto simp: inv2_def refs_ok_def)
  moreover have "sending_ok (s\<lparr>tasks := removeAt i (tasks s)\<rparr>)"
    using assms sub by (auto simp: inv2_def sending_ok_def)
  moreover have "sent_ok (s\<lparr>tasks := removeAt i (tasks s)\<rparr>)"
    using assms by (simp add: inv2_def sent_ok_def)
  ultimately show ?thesis by (simp add: inv2_def)
qed


lemma inv2_addCommand: "inv2 s \<Longrightarrow> inv2 (addCommand dev cmd v newid now s)"
proof -
  assume i: "inv2 s"
  let ?s = "addCommand dev cmd v newid now s"
  have h: "\<And>a. a < nextRef s \<Longrightarrow> heap ?s a = heap s a"
    by (simp add: addCommand_def Let_def)
  have 1: "refs_ok ?s"
    using i by (auto simp: inv2_def refs_ok_def addCommand_def Let_def less_Suc_eq)
  have 2: "sending_ok ?s"
    unfolding sending_ok_def
  proof
    fix t assume "t \<in> set (tasks ?s)"
    then have "t = AddCont \<or> t \<in> set (tasks s)" by (auto simp: addCommand_def Let_def)
    then show "awaiting_ok ?s t"
    proof
      assume "t = AddCont" then show ?thesis by simp
    next
      assume m: "t \<in> set (tasks s)"
      then have a: "awaiting_ok s t" and r: "\<forall>a\<in>set (taskRefs t). a < nextRef s"
        using i by (auto simp: inv2_def sending_ok_def refs_ok_def)
      show ?thesis using a r h by (cases t) simp_all
    qed
  qed
  have 3: "sent_ok ?s" using i by (simp add: inv2_def sent_ok_def addCommand_def Let_def)
  show ?thesis using 1 2 3 by (simp add: inv2_def)
qed

lemma inv2_timerFire: "inv2 s \<Longrightarrow> inv2 (timerFire t ok s)"
  by (auto simp: inv2_def refs_ok_def sending_ok_def sent_ok_def timerFire_def Let_def)

lemma awaiting_ok_heap: "heap s' = heap s \<Longrightarrow> awaiting_ok s' t = awaiting_ok s t"
  by (cases t) simp_all

lemma inv2_clearQueue: "inv2 s \<Longrightarrow> inv2 (clearQueue ok s)"
proof -
  assume i: "inv2 s"
  have f: "heap (clearQueue ok s) = heap s" "tasks (clearQueue ok s) = tasks s @ [SaveImmCont]"
    "sent (clearQueue ok s) = sent s" "queue (clearQueue ok s) = []"
    "nextRef (clearQueue ok s) = nextRef s"
    by (simp_all add: clearQueue_def saveQueueImmediate_def clearTimeout_def Let_def split: option.split)
  show ?thesis using i
    by (simp add: inv2_def refs_ok_def sending_ok_def sent_ok_def f awaiting_ok_heap[OF f(1)])
qed

lemma inv2_restart: "inv2 s \<Longrightarrow> inv2 (restart ok s)"
  by (auto simp: inv2_def refs_ok_def sending_ok_def sent_ok_def restart_def init_def load_def
      split: option.splits)

lemma inv2_resume:
  assumes "inv s" "inv2 s" "i < length (tasks s)"
    and "resume (tasks s ! i) (s\<lparr>tasks := removeAt i (tasks s)\<rparr>) = Some s'"
  shows "inv2 s'"
proof -
  let ?s = "s\<lparr>tasks := removeAt i (tasks s)\<rparr>"
  have d: "inv2 ?s" using assms(2) by (rule inv2_drop_task)
  have n: "activeDrains ?s = activeDrains s - (if isDrain (tasks s ! i) then 1 else 0)"
    using assms(3) by (simp add: activeDrains_def filter_removeAt)
  have f: "activeDrains s = (if processing s then 1 else 0)" using assms(1) by (simp add: inv_def flag_ok_def)
  have m: "tasks s ! i \<in> set (tasks s)" using assms(3) by simp
  show ?thesis
  proof (cases "tasks s ! i")
    case AddCont
    then have "flag_ok ?s" using n f by (simp add: flag_ok_def)
    then have "inv2 (processQueue ?s)" using d by (intro inv2_processQueue)
    then show ?thesis using assms(4) AddCont by simp
  next
    case (AwaitSave1 a rest)
    have a: "status (heap s a) = sending \<and> 1 \<le> retryCount (heap s a)"
      using assms(2) m AwaitSave1 by (force simp: inv2_def sending_ok_def)
    have b: "retryCount (heap s a) \<le> MAX_RETRIES"
      using assms(1) by (simp add: inv_def heap_ok_def cmd_ok_def)
    have r: "\<forall>b\<in>set (a # rest). b < nextRef s"
      using assms(2) m AwaitSave1 by (force simp: inv2_def refs_ok_def)
    have s': "s' = (issueSend a ?s)\<lparr>tasks := tasks (issueSend a ?s) @ [AwaitSend a rest]\<rparr>"
      using assms(4) AwaitSave1 by (simp add: Let_def)
    show ?thesis unfolding s' using d a b r
      by (auto simp: inv2_def refs_ok_def sending_ok_def sent_ok_def issueSend_def)
  next
    case (AwaitSend a rest)
    then show ?thesis using assms(4) by simp
  next
    case (AwaitSave2 rest)
    have "0 < activeDrains s" unfolding activeDrains_def using assms(3)
      by (rule filter_nth_pos) (simp add: AwaitSave2)
    then have z: "activeDrains ?s = 0" using n f AwaitSave2 by (auto split: if_splits)
    have r: "\<forall>b\<in>set rest. b < nextRef ?s"
      using assms(2) m AwaitSave2 by (force simp: inv2_def refs_ok_def)
    have "inv2 (runLoop rest ?s)"
      using d r no_drains[OF z] by (intro inv2_runLoop) (simp_all add: inv2_def)
    then show ?thesis using assms(4) AwaitSave2 by simp
  next
    case AwaitFinal
    then show ?thesis using assms(4) d by simp
  next
    case TimerCont
    then show ?thesis using assms(4) d
      by (auto simp: inv2_def refs_ok_def sending_ok_def sent_ok_def)
  next
    case SaveImmCont
    then show ?thesis using assms(4) d
      by (auto simp: inv2_def refs_ok_def sending_ok_def sent_ok_def)
  next
    case ClearCont
    then show ?thesis using assms(4) d by simp
  qed
qed

lemma inv2_sendResult:
  assumes "inv s" "inv2 s" "i < length (tasks s)"
    and "sendResult ok (tasks s ! i) (s\<lparr>tasks := removeAt i (tasks s)\<rparr>) = Some s'"
  shows "inv2 s'"
proof -
  let ?s = "s\<lparr>tasks := removeAt i (tasks s)\<rparr>"
  have d: "inv2 ?s" using assms(2) by (rule inv2_drop_task)
  have n: "activeDrains ?s = activeDrains s - (if isDrain (tasks s ! i) then 1 else 0)"
    using assms(3) by (simp add: activeDrains_def filter_removeAt)
  have f: "activeDrains s = (if processing s then 1 else 0)" using assms(1) by (simp add: inv_def flag_ok_def)
  have m: "tasks s ! i \<in> set (tasks s)" using assms(3) by simp
  obtain a rest where t: "tasks s ! i = AwaitSend a rest"
    using assms(4) by (cases "tasks s ! i") simp_all
  have "0 < activeDrains s" unfolding activeDrains_def using assms(3)
    by (rule filter_nth_pos) (simp add: t)
  then have z: "activeDrains ?s = 0" using n f t by (auto split: if_splits)
  have nd: "\<forall>u\<in>set (tasks ?s). \<not> isDrain u" using no_drains[OF z] .
  have r: "\<forall>b\<in>set rest. b < nextRef s"
    using assms(2) m t by (force simp: inv2_def refs_ok_def)
  have s': "s' = (finishAttempt ok a ?s)\<lparr>tasks := tasks (finishAttempt ok a ?s) @ [AwaitSave2 rest]\<rparr>"
    using assms(4) t by (simp add: Let_def)
  have 1: "refs_ok s'"
    unfolding s' using d r queue_finishAttempt[of ok a ?s]
    by (auto simp: inv2_def refs_ok_def)
  have 2: "sending_ok s'"
    unfolding s' using nd by (auto simp: sending_ok_def awaiting_ok_nondrain)
  have 3: "sent_ok s'"
    unfolding s' using d by (simp add: inv2_def sent_ok_def finishAttempt_def removeById_def)
  show ?thesis using 1 2 3 by (simp add: inv2_def)
qed

lemma inv2_fire: "inv s \<Longrightarrow> inv2 s \<Longrightarrow> fire e s = Some s' \<Longrightarrow> inv2 s'"
proof (cases e)
  case ProcessQueue
  assume "inv s" "inv2 s" "fire e s = Some s'"
  then show ?thesis using ProcessQueue inv2_processQueue[of s] by (auto simp: inv_def)
qed (auto simp: inv2_addCommand inv2_timerFire inv2_clearQueue inv2_restart
      split: if_splits elim: inv2_resume inv2_sendResult)

lemma inv2_run: "inv s \<Longrightarrow> inv2 s \<Longrightarrow> run es s = Some s' \<Longrightarrow> inv2 s'"
proof (induction es arbitrary: s)
  case Nil
  then show ?case by simp
next
  case (Cons e es)
  then obtain s1 where s1: "fire e s = Some s1" "run es s1 = Some s'"
    by (auto split: option.splits)
  have "inv s1" using Cons.prems(1) s1(1) by (rule inv_fire)
  moreover have "inv2 s1" using Cons.prems(1,2) s1(1) by (rule inv2_fire)
  ultimately show ?case using Cons.IH s1(2) by blast
qed

lemma inv2_init_state: "inv2 init_state"
  by (simp add: inv2_def refs_ok_def sending_ok_def sent_ok_def init_state_def)

lemma reachable_inv2: "reachable s \<Longrightarrow> inv2 s"
  unfolding reachable_def using inv2_run[OF inv_init_state inv2_init_state] by blast

section \<open>Proofs: credential cache and request registry\<close>

lemma tokenCalls_shared:
  "cachedAuthToken s = None \<Longrightarrow> tokenCachePromise s = Some p \<Longrightarrow>
     tokenCalls oks s = (replicate (length oks) (Later p), s)"
  by (induction oks) (simp_all add: initializeTokenCache_def)

lemma initializeTokenCache_cold:
  "cachedAuthToken s = None \<Longrightarrow> tokenCachePromise s = None \<Longrightarrow>
     initializeTokenCache ok s =
       (Later (length (storeReads s)),
        s\<lparr>storeReads := storeReads s @ [if ok then Resolved (tokenStore s) else Rejected],
          tokenCachePromise := Some (length (storeReads s))\<rparr>)"
  by (simp add: initializeTokenCache_def Let_def)







text \<open>
  Once the read has resolved, later callers cause no further read: with a stored token they take
  the cached value, without one they are handed the resolved promise again.  A rejected read
  resets the promise, so the next caller reads the store again.
\<close>

lemma tokenCalls_cached:
  "cachedAuthToken s = Some t \<Longrightarrow> tokenCalls oks s = (replicate (length oks) (Now (Some t)), s)"
  by (induction oks) (simp_all add: initializeTokenCache_def)

lemma no_further_read_after_a_successful_read:
  assumes "cachedAuthToken s = None" "tokenCachePromise s = None"
  shows "storeReads (snd (tokenCalls oks (readDone (length (storeReads s)) (snd (initializeTokenCache True s)))))
           = storeReads s @ [Resolved (tokenStore s)]"
proof -
  let ?p = "length (storeReads s)"
  let ?s1 = "s\<lparr>storeReads := storeReads s @ [Resolved (tokenStore s)], tokenCachePromise := Some ?p\<rparr>"
  have 1: "snd (initializeTokenCache True s) = ?s1"
    using assms by (simp add: initializeTokenCache_cold)
  have 2: "readDone ?p ?s1 = ?s1\<lparr>cachedAuthToken := tokenStore s\<rparr>"
    by (simp add: readDone_def)
  show ?thesis
  proof (cases "tokenStore s")
    case None
    have "tokenCalls oks (?s1\<lparr>cachedAuthToken := tokenStore s\<rparr>)
            = (replicate (length oks) (Later ?p), ?s1\<lparr>cachedAuthToken := tokenStore s\<rparr>)"
      using None by (intro tokenCalls_shared) simp_all
    then show ?thesis unfolding 1 2 by simp
  next
    case (Some t)
    have "tokenCalls oks (?s1\<lparr>cachedAuthToken := tokenStore s\<rparr>)
            = (replicate (length oks) (Now (Some t)), ?s1\<lparr>cachedAuthToken := tokenStore s\<rparr>)"
      using Some by (intro tokenCalls_cached) simp
    then show ?thesis unfolding 1 2 by simp
  qed
qed

lemma a_rejected_read_is_repeated:
  assumes "cachedAuthToken s = None" "tokenCachePromise s = None"
  shows "fst (initializeTokenCache ok (readDone (length (storeReads s)) (snd (initializeTokenCache False s))))
           = Later (Suc (length (storeReads s)))"
  using assms by (simp add: initializeTokenCache_def readDone_def Let_def)

section \<open>Proofs: hashing\<close>

text \<open>Decimal notation is injective.\<close>

lemma digit_char: "n < 10 \<Longrightarrow> of_char (''0123456789'' ! n) = 48 + n"
proof -
  assume "n < 10"
  then have "n \<in> {0, 1, 2, 3, 4, 5, 6, 7, 8, 9}" by auto
  then show ?thesis by auto
qed

declare digitsOf.simps [simp del]

lemma valueOf_digitsOf: "valueOf (digitsOf n) = n"
proof (induction n rule: digitsOf.induct)
  case (1 n)
  show ?case
  proof (cases "n < 10")
    case True
    then show ?thesis by (subst digitsOf.simps) (simp add: digit_char)
  next
    case False
    then have "valueOf (digitsOf (n div 10)) = n div 10" using 1 by simp
    then show ?thesis using False
      by (subst digitsOf.simps) (simp add: digit_char)
  qed
qed

lemma digitsOf_inj: "digitsOf m = digitsOf n \<Longrightarrow> m = n"
  by (metis valueOf_digitsOf)

lemma digitsOf_no_minus: "CHR ''-'' \<notin> set (digitsOf n)"
proof (induction n rule: digitsOf.induct)
  case (1 n)
  have d: "\<And>k. k < 10 \<Longrightarrow> ''0123456789'' ! k \<noteq> CHR ''-''"
  proof -
    fix k :: nat assume "k < 10"
    then have "k \<in> {0, 1, 2, 3, 4, 5, 6, 7, 8, 9}" by auto
    then show "''0123456789'' ! k \<noteq> CHR ''-''" by auto
  qed
  show ?case
  proof (cases "n < 10")
    case True
    then show ?thesis using d[of n] by (subst digitsOf.simps) simp
  next
    case False
    then show ?thesis using 1 d[of "n mod 10"] by (subst digitsOf.simps) simp
  qed
qed

lemma digitsOf_nonempty: "digitsOf n \<noteq> []"
  by (subst digitsOf.simps) simp

lemma showInt_inj: "showInt i = showInt j \<Longrightarrow> i = j"
proof -
  assume e: "showInt i = showInt j"
  have hd_neg: "\<And>k. k < 0 \<Longrightarrow> hd (showInt k) = CHR ''-''" by (simp add: showInt_def)
  have hd_pos: "\<And>k. \<not> k < 0 \<Longrightarrow> hd (showInt k) \<noteq> CHR ''-''"
    using digitsOf_no_minus digitsOf_nonempty by (metis showInt_def hd_in_set)
  have s: "i < 0 \<longleftrightarrow> j < 0" using e hd_neg hd_pos by metis
  show ?thesis
  proof (cases "i < 0")
    case True
    then have "digitsOf (nat (- i)) = digitsOf (nat (- j))" using e s by (simp add: showInt_def)
    then have "nat (- i) = nat (- j)" by (rule digitsOf_inj)
    then show ?thesis using True s by simp
  next
    case False
    then have "digitsOf (nat i) = digitsOf (nat j)" using e s by (simp add: showInt_def)
    then have "nat i = nat j" by (rule digitsOf_inj)
    then show ?thesis using False s by simp
  qed
qed

lemma hashError_inj: "hashError ty now = hashError ty now' \<Longrightarrow> now = now'"
  by (simp add: hashError_def showInt_inj)

lemma sort_keys_eq:
  "distinct ks \<Longrightarrow> distinct ks' \<Longrightarrow> set ks = set ks' \<Longrightarrow> sort ks = sort (ks' :: string list)"
  by (intro sorted_distinct_set_unique) simp_all

lemma hashData_sorted_bisim:
  "keyOrderBisim h R \<Longrightarrow> R v w \<Longrightarrow> hashData_sorted n h now v = hashData_sorted n h now w"
proof (induction n arbitrary: v w)
  case 0
  show ?case by simp
next
  case (Suc n)
  show ?case
  proof (cases "v = w")
    case True
    then show ?thesis by simp
  next
    case False
    then obtain a b where ab: "v = JRef a" "w = JRef b"
      and c: "case (h a, h b) of
              (JArray xs, JArray ys) \<Rightarrow> list_all2 R xs ys
            | (JObject kvs, JObject kws) \<Rightarrow>
                distinct (map fst kvs) \<and> distinct (map fst kws) \<and>
                set (map fst kvs) = set (map fst kws) \<and>
                (\<forall>key\<in>set (map fst kvs). R (getProp kvs key) (getProp kws key))
            | _ \<Rightarrow> False"
      using Suc.prems unfolding keyOrderBisim_def by blast
    have "hashTry n h now v = hashTry n h now w"
    proof (cases "h a")
      case (JArray xs)
      then obtain ys where ys: "h b = JArray ys" and l: "list_all2 R xs ys"
        using c by (cases "h b") auto
      have "list_all2 (\<lambda>x y. hashData_sorted n h now x = hashData_sorted n h now y) xs ys"
        using l Suc.IH[OF Suc.prems(1)] by (rule list_all2_mono)
      then have "map (hashData_sorted n h now) xs = map (hashData_sorted n h now) ys"
        by (induction rule: list_all2_induct) simp_all
      then show ?thesis using ab JArray ys by simp
    next
      case (JObject kvs)
      then obtain kws where kws: "h b = JObject kws"
        using c by (cases "h b") auto
      have all: "distinct (map fst kvs) \<and> distinct (map fst kws) \<and>
                 set (map fst kvs) = set (map fst kws) \<and>
                 (\<forall>key\<in>set (map fst kvs). R (getProp kvs key) (getProp kws key))"
        using c unfolding JObject kws prod.case jsobj.case .
      have d: "distinct (map fst kvs)" "distinct (map fst kws)" "set (map fst kvs) = set (map fst kws)"
        and r: "\<forall>key\<in>set (map fst kvs). R (getProp kvs key) (getProp kws key)"
        using all by blast+
      have s: "sort (map fst kvs) = sort (map fst kws)" using d by (rule sort_keys_eq)
      let ?f = "\<lambda>kvs key. map_option (\<lambda>r. key @ '':'' @ r) (hashData_sorted n h now (getProp kvs key))"
      have m: "map (?f kvs) (sort (map fst kvs)) = map (?f kws) (sort (map fst kvs))"
      proof (rule map_cong[OF refl])
        fix key assume "key \<in> set (sort (map fst kvs))"
        then have "key \<in> set (map fst kvs)" by simp
        then have "R (getProp kvs key) (getProp kws key)" using r by blast
        then have "hashData_sorted n h now (getProp kvs key) = hashData_sorted n h now (getProp kws key)"
          using Suc.IH[OF Suc.prems(1)] by blast
        then show "?f kvs key = ?f kws key" by simp
      qed
      have 1: "hashTry n h now v
          = map_option (\<lambda>pairs. ''{'' @ joinWith '','' pairs @ ''}'') (those (map (?f kvs) (sort (map fst kvs))))"
        using ab JObject by simp
      have 2: "hashTry n h now w
          = map_option (\<lambda>pairs. ''{'' @ joinWith '','' pairs @ ''}'') (those (map (?f kws) (sort (map fst kws))))"
        using ab kws by simp
      show ?thesis unfolding 1 2 s[symmetric] m ..
    qed
    then show ?thesis using ab by (simp del: hashTry.simps split: option.split)
  qed
qed

text \<open>The same object built with another insertion order.\<close>

lemma hashData_sorted_reordered:
  assumes "h a = JObject kvs" "h b = JObject kws" "distinct (map fst kvs)" "distinct (map fst kws)"
    and "map_of kvs = map_of kws"
  shows "hashData_sorted n h now (JRef a) = hashData_sorted n h now (JRef b)"
proof -
  let ?R = "\<lambda>v w. v = w \<or> (v = JRef a \<and> w = JRef b)"
  have "set (map fst kvs) = set (map fst kws)"
    using assms(5) by (metis dom_map_of_conv_image_fst set_map)
  moreover have "\<forall>key. getProp kvs key = getProp kws key" using assms(5) by (simp add: getProp_def)
  ultimately have "keyOrderBisim h ?R"
    unfolding keyOrderBisim_def using assms(1-4) by auto
  then show ?thesis by (rule hashData_sorted_bisim) simp
qed

declare hashTry.simps [simp del]






lemma hashTry_self:
  assumes "h a = JObject [(k, JRef a)]"
  shows "hashTry n h now (JRef a)
           = map_option (\<lambda>r. ''{'' @ k @ '':'' @ r @ ''}'') (hashData_sorted n h now (JRef a))"
proof (cases "hashData_sorted n h now (JRef a)")
  case None
  then show ?thesis using assms by (simp add: hashTry.simps getProp_def del: hashData_sorted.simps)
next
  case (Some r)
  then show ?thesis using assms by (simp add: hashTry.simps getProp_def del: hashData_sorted.simps)
qed

lemma hashData_sorted_self:
  assumes "h a = JObject [(k, JRef a)]"
  shows "hashData_sorted (Suc n) h now (JRef a) = Some (selfHash n k now)"
proof (induction n)
  case 0
  show ?case by (simp add: hashTry_self[of h a k, OF assms])
next
  case (Suc n)
  have "hashTry (Suc n) h now (JRef a) = Some (''{'' @ k @ '':'' @ selfHash n k now @ ''}'')"
    unfolding hashTry_self[of h a k, OF assms] Suc.IH by simp
  then show ?case by (simp del: hashTry.simps)
qed

lemma selfHash_inj: "selfHash n k now = selfHash n k now' \<Longrightarrow> now = now'"
  by (induction n) (simp_all add: hashError_inj)

lemma hashData_stringify_self:
  "h a = JObject [(k, JRef a)] \<Longrightarrow> hashData_stringify (Suc n) h (JRef a) = Inr (Some ''[object Object]'')"
  by (cases n) (simp_all add: hashData_stringify_def)

section \<open>The claims about the command queue\<close>

lemma runLoop_subset: "set (queue (runLoop pend s)) \<subseteq> set (queue s)"
proof (induction pend arbitrary: s)
  case Nil
  show ?case by (simp add: Let_def)
next
  case (Cons a rest)
  show ?case using Cons.IH[of "removeById (cid (heap s a)) s"]
    by (auto simp: Let_def removeById_def)
qed

subsection \<open>C10: no stored command has status success\<close>

text \<open>
  C10. In every reachable state the commands that \<^verbatim>\<open>getQueuedCommands\<close> returns have status
  \<open>pending\<close>, \<open>sending\<close> or \<open>failed\<close>, and so have the commands in the durable store:
  \<open>success\<close> is declared but never assigned. A successful delivery removes the command from
  the queue and leaves every object as it was.
\<close>

theorem success_never_stored:
  assumes "reachable s"
  shows "(\<forall>c\<in>set (getQueuedCommands s). status c = pending \<or> status c = sending \<or> status c = failed) \<and>
         (case store s of None \<Rightarrow> True | Some cs \<Rightarrow> \<forall>c\<in>set cs. status c \<noteq> success) \<and>
         (\<forall>a. a \<notin> set (queue (finishAttempt True a s)) \<and> heap (finishAttempt True a s) = heap s)"
proof -
  have i: "inv s" using assms by (rule reachable_inv)
  have "\<forall>a. status (heap s a) \<noteq> success" using i by (simp add: inv_def heap_ok_def cmd_ok_def)
  then have 1: "\<forall>c\<in>set (getQueuedCommands s). status c = pending \<or> status c = sending \<or> status c = failed"
    by (auto simp: getQueuedCommands_def snapshot_def) (metis status.exhaust)
  have 2: "case store s of None \<Rightarrow> True | Some cs \<Rightarrow> \<forall>c\<in>set cs. status c \<noteq> success"
    using i by (auto simp: inv_def store_ok_def cmd_ok_def list_all_iff split: option.splits)
  have 3: "\<forall>a. a \<notin> set (queue (finishAttempt True a s)) \<and> heap (finishAttempt True a s) = heap s"
    by (simp add: finishAttempt_def removeById_def)
  show ?thesis using 1 2 3 by blast
qed

lemma delivered_trace_runs: "run delivered_trace init_state \<noteq> None"
  by code_simp

lemma delivered_trace_reachable: "reachable (the (run delivered_trace init_state))"
  unfolding reachable_def using delivered_trace_runs by (intro exI[of _ delivered_trace]) auto


theorem success_never_stored_witness:
  "reachable (the (run delivered_trace init_state)) \<and>
   map status (getQueuedCommands (the (run delivered_trace init_state))) = [sending] \<and>
   map status (the (store (the (run delivered_trace init_state)))) = [sending, pending] \<and>
   list_all (\<lambda>c. status c \<noteq> success) (getQueuedCommands (the (run delivered_trace init_state)))"
proof -
  let ?w = "the (run delivered_trace init_state)"
  have 1: "map status (getQueuedCommands ?w) = [sending]" by code_simp
  have 2: "map status (the (store ?w)) = [sending, pending]" by code_simp
  have "\<forall>c\<in>set (getQueuedCommands ?w). status c = pending \<or> status c = sending \<or> status c = failed"
    using success_never_stored[OF delivered_trace_reachable] by blast
  then have 3: "list_all (\<lambda>c. status c \<noteq> success) (getQueuedCommands ?w)"
    by (auto simp: list_all_iff)
  show ?thesis using delivered_trace_reachable 1 2 3 by blast
qed

subsection \<open>C2: retries without network\<close>

text \<open>
  C2, as amended. Take a command that is pending with \<open>retryCount = 0\<close> in an idle queue
  whose ids are unique, and let the transport reject every call. After the first pass the
  command is in the queue with status \<open>failed\<close> and \<open>retryCount = 1\<close>. After the third pass,
  that is after three failed attempts, it is still in the queue, \<open>failed\<close> with
  \<open>retryCount = 3\<close>; the fourth pass removes it without another attempt, so it is dropped after
  exactly three attempts. With any transports the command is gone after four passes, and no
  pass leaves it \<open>pending\<close>: it is removed or \<open>failed\<close>.
\<close>

theorem dropped_on_the_pass_after_the_third_failure:
  assumes "\<not> processing s" "uniqueIds s" "a \<in> set (queue s)"
    and "status (heap s a) = pending" "retryCount (heap s a) = 0"
  shows "(a \<in> set (queue (drains [noNetwork] s)) \<and>
          status (heap (drains [noNetwork] s) a) = failed \<and>
          retryCount (heap (drains [noNetwork] s) a) = 1) \<and>
         (a \<in> set (queue (drains [noNetwork, noNetwork, noNetwork] s)) \<and>
          status (heap (drains [noNetwork, noNetwork, noNetwork] s) a) = failed \<and>
          retryCount (heap (drains [noNetwork, noNetwork, noNetwork] s) a) = 3 \<and>
          attempts (drains [noNetwork, noNetwork, noNetwork] s) (cid (heap s a))
            = attempts s (cid (heap s a)) + 3) \<and>
         (a \<notin> set (queue (drains [noNetwork, noNetwork, noNetwork, noNetwork] s)) \<and>
          attempts (drains [noNetwork, noNetwork, noNetwork, noNetwork] s) (cid (heap s a))
            = attempts s (cid (heap s a)) + 3) \<and>
         (\<forall>sends. 4 \<le> length sends \<longrightarrow> a \<notin> set (queue (drains sends s))) \<and>
         (\<forall>send. a \<notin> set (queue (drain send s)) \<or> status (heap (drain send s) a) = failed)"
proof -
  let ?s1 = "drain noNetwork s"
  let ?s2 = "drain noNetwork ?s1"
  let ?s3 = "drain noNetwork ?s2"
  let ?s4 = "drain noNetwork ?s3"
  let ?i = "cid (heap s a)"
  have e0: "eligible s a" using assms(4) by (simp add: eligible_def)
  have r0: "retryCount (heap s a) < MAX_RETRIES" using assms(5) by (simp add: MAX_RETRIES_def)
  note p1 = drain_noNetwork_below[OF assms(1-3) e0 r0]
  have e1: "eligible ?s1 a" and r1: "retryCount (heap ?s1 a) < MAX_RETRIES"
    using p1 assms(5) by (simp_all add: eligible_def MAX_RETRIES_def)
  have i1: "cid (heap ?s1 a) = ?i" by simp
  note p2 = drain_noNetwork_below[OF conjunct1[OF p1] conjunct1[OF conjunct2[OF p1]]
      conjunct1[OF conjunct2[OF conjunct2[OF p1]]] e1 r1]
  have e2: "eligible ?s2 a" and r2: "retryCount (heap ?s2 a) < MAX_RETRIES"
    using p1 p2 assms(5) by (simp_all add: eligible_def MAX_RETRIES_def)
  note p3 = drain_noNetwork_below[OF conjunct1[OF p2] conjunct1[OF conjunct2[OF p2]]
      conjunct1[OF conjunct2[OF conjunct2[OF p2]]] e2 r2]
  have e3: "eligible ?s3 a" and r3: "MAX_RETRIES \<le> retryCount (heap ?s3 a)"
    using p1 p2 p3 assms(5) by (simp_all add: eligible_def MAX_RETRIES_def)
  note p4 = drain_at_ceiling[OF conjunct1[OF p3] conjunct1[OF conjunct2[OF p3]]
      conjunct1[OF conjunct2[OF conjunct2[OF p3]]] e3 r3, of noNetwork]
  have c1: "a \<in> set (queue ?s1) \<and> status (heap ?s1 a) = failed \<and> retryCount (heap ?s1 a) = 1"
    using p1 assms(5) by simp
  have c3: "a \<in> set (queue ?s3) \<and> status (heap ?s3 a) = failed \<and> retryCount (heap ?s3 a) = 3 \<and>
            attempts ?s3 ?i = attempts s ?i + 3"
    using p1 p2 p3 assms(5) by simp
  have c4: "a \<notin> set (queue ?s4) \<and> attempts ?s4 ?i = attempts s ?i + 3"
    using p4 c3 by simp
  have c5: "\<forall>sends. 4 \<le> length sends \<longrightarrow> a \<notin> set (queue (drains sends s))"
    using drains_gone[OF assms(1-3) e0] assms(5) by (simp add: MAX_RETRIES_def)
  have c6: "\<forall>send. a \<notin> set (queue (drain send s)) \<or> status (heap (drain send s) a) = failed"
  proof
    fix send
    show "a \<notin> set (queue (drain send s)) \<or> status (heap (drain send s) a) = failed"
      using drain_fate[OF assms(1-3) e0, of send] r0 by (cases "send (sendingForm (heap s a))") simp_all
  qed
  show ?thesis using c1 c3 c4 c5 c6 by simp
qed

lemma enqueued_facts:
  "\<not> processing enqueued" "uniqueIds enqueued" "0 \<in> set (queue enqueued)"
  "status (heap enqueued 0) = pending" "retryCount (heap enqueued 0) = 0"
  "cid (heap enqueued 0) = ''id1''" "attempts enqueued ''id1'' = 0"
  by (simp_all add: enqueued_def addCommand_def init_state_def saveQueue_def Let_def uniqueIds_def
      attempts_def)

theorem dropped_on_the_pass_after_the_third_failure_witness:
  "\<not> processing enqueued \<and> uniqueIds enqueued \<and> 0 \<in> set (queue enqueued) \<and>
   status (heap enqueued 0) = pending \<and> retryCount (heap enqueued 0) = 0 \<and>
   retryCount (heap (drains [noNetwork] enqueued) 0) = 1 \<and>
   0 \<in> set (queue (drains [noNetwork, noNetwork, noNetwork] enqueued)) \<and>
   0 \<notin> set (queue (drains [noNetwork, noNetwork, noNetwork, noNetwork] enqueued)) \<and>
   attempts (drains [noNetwork, noNetwork, noNetwork, noNetwork] enqueued) ''id1'' = 3"
  using dropped_on_the_pass_after_the_third_failure[OF enqueued_facts(1-5)] enqueued_facts
  by simp

text \<open>After three failed attempts the command of the scenario is still in the queue, in the
  passes run one after the other and in the run of the interleaving model; the pass after
  that removes it.\<close>

theorem present_after_three_failures_counterexample:
  "getQueuedCommands (drains [noNetwork, noNetwork, noNetwork] enqueued) =
     [\<lparr>cid = ''id1'', deviceId = ''D1'', command = ''ARM'', cvalue = None, timestamp = 1000,
       retryCount = 3, status = failed\<rparr>] \<and>
   attempts (drains [noNetwork, noNetwork, noNetwork] enqueued) ''id1'' = 3 \<and>
   getQueuedCommands (the (run three_failures_trace init_state)) =
     [\<lparr>cid = ''id1'', deviceId = ''D1'', command = ''ARM'', cvalue = None, timestamp = 1000,
       retryCount = 3, status = failed\<rparr>] \<and>
   tasks (the (run three_failures_trace init_state)) = [] \<and>
   getQueuedCommands (the (run (three_failures_trace @ [ProcessQueue, Resume 0]) init_state)) = []"
  by code_simp

text \<open>
  A command that was being sent when the process stopped is reloaded with status \<open>sending\<close>.
  The loop takes only \<open>pending\<close> and \<open>failed\<close> commands, so no pass attempts or removes it.
\<close>

lemma sending_command_reloaded_after_restart_is_never_retried:
  "map status (getQueuedCommands (the (run crash_while_sending_trace init_state))) = [sending] \<and>
   \<not> processing (the (run crash_while_sending_trace init_state)) \<and>
   getQueuedCommands (drains sends (the (run crash_while_sending_trace init_state)))
     = getQueuedCommands (the (run crash_while_sending_trace init_state))"
proof -
  let ?w = "the (run crash_while_sending_trace init_state)"
  have 1: "map status (getQueuedCommands ?w) = [sending]" by code_simp
  have 2: "\<not> processing ?w" by code_simp
  have "\<forall>a\<in>set (queue ?w). \<not> eligible ?w a"
    using 1 by (auto simp: getQueuedCommands_def snapshot_def eligible_def)
  then have "queue (drains sends ?w) = queue ?w \<and> heap (drains sends ?w) = heap ?w"
    by (rule drains_nothing_eligible)
  then show ?thesis using 1 2 by (simp add: getQueuedCommands_def snapshot_def)
qed

subsection \<open>C8: the retry ceiling\<close>

text \<open>
  C8, as amended. In every reachable state no command of the queue has a \<open>retryCount\<close> above
  \<open>MAX_RETRIES\<close>. A command whose count reaches the ceiling is not removed at that moment: the
  ceiling is tested at the top of the loop, before an attempt, so the command stays in the
  queue during the attempt that brought it there and, when that attempt fails, after it, with
  status \<open>failed\<close>. A command that the loop considers once its count has reached the ceiling
  is removed from the queue: it is not attempted (nothing is handed to the transport) and its
  count is not incremented. \<^verbatim>\<open>addCommand\<close> appends a command with \<open>retryCount = 0\<close> and status
  \<open>pending\<close>. Below the ceiling the loop increments the count and marks the command
  \<open>sending\<close> before it suspends and before the transport is called; in every reachable state
  each command that was handed to the transport had status \<open>sending\<close> and a count between 1
  and \<open>MAX_RETRIES\<close>.
\<close>

theorem retryCount_never_exceeds_ceiling:
  assumes "reachable s"
  shows "(\<forall>c\<in>set (getQueuedCommands s). retryCount c \<le> MAX_RETRIES) \<and>
         (\<forall>a. MAX_RETRIES \<le> retryCount (heap s a) \<longrightarrow>
              (\<forall>rest. a \<notin> set (queue (runLoop (a # rest) s))) \<and>
              (\<forall>send. a \<notin> set (queue (iteration send a s)) \<and>
                      heap (iteration send a s) = heap s \<and> sent (iteration send a s) = sent s)) \<and>
         (\<forall>a send. \<not> processing s \<and> uniqueIds s \<and> a \<in> set (queue s) \<and> eligible s a \<and>
              MAX_RETRIES \<le> retryCount (heap s a) \<longrightarrow>
              a \<notin> set (queue (drain send s)) \<and>
              attempts (drain send s) (cid (heap s a)) = attempts s (cid (heap s a))) \<and>
         (\<forall>dev cmd v newid now.
              retryCount (last (getQueuedCommands (addCommand dev cmd v newid now s))) = 0 \<and>
              status (last (getQueuedCommands (addCommand dev cmd v newid now s))) = pending) \<and>
         (\<forall>a. retryCount (heap s a) < MAX_RETRIES \<longrightarrow>
              (\<forall>send. sent (iteration send a s) = sent s @ [sendingForm (heap s a)]) \<and>
              (\<forall>rest. tasks (runLoop (a # rest) s) = tasks s @ [AwaitSave1 a rest] \<and>
                      heap (runLoop (a # rest) s) a = sendingForm (heap s a) \<and>
                      sent (runLoop (a # rest) s) = sent s)) \<and>
         (\<forall>c\<in>set (sent s). status c = sending \<and> 1 \<le> retryCount c \<and> retryCount c \<le> MAX_RETRIES) \<and>
         (\<forall>a. a \<in> set (queue s) \<longrightarrow>
              a \<in> set (queue (finishAttempt False a s)) \<and>
              heap (finishAttempt False a s) a = (heap s a)\<lparr>status := failed\<rparr>)"
proof -
  have i: "inv s" using assms by (rule reachable_inv)
  have 1: "\<forall>c\<in>set (getQueuedCommands s). retryCount c \<le> MAX_RETRIES"
    using i by (auto simp: inv_def heap_ok_def cmd_ok_def getQueuedCommands_def snapshot_def)
  have 2: "\<forall>a. MAX_RETRIES \<le> retryCount (heap s a) \<longrightarrow>
              (\<forall>rest. a \<notin> set (queue (runLoop (a # rest) s))) \<and>
              (\<forall>send. a \<notin> set (queue (iteration send a s)) \<and>
                      heap (iteration send a s) = heap s \<and> sent (iteration send a s) = sent s)"
  proof (intro allI impI conjI)
    fix a rest assume m: "MAX_RETRIES \<le> retryCount (heap s a)"
    have "a \<notin> set (queue (removeById (cid (heap s a)) s))" by (simp add: removeById_def)
    then show "a \<notin> set (queue (runLoop (a # rest) s))"
      using m runLoop_subset[of rest "removeById (cid (heap s a)) s"] by auto
  next
    fix a send assume m: "MAX_RETRIES \<le> retryCount (heap s a)"
    show "a \<notin> set (queue (iteration send a s))" using m by (simp add: iteration_dropped)
    show "heap (iteration send a s) = heap s" using m by (simp add: iteration_dropped)
    show "sent (iteration send a s) = sent s" using m by (simp add: iteration_def)
  qed
  have 3: "\<forall>dev cmd v newid now.
              retryCount (last (getQueuedCommands (addCommand dev cmd v newid now s))) = 0 \<and>
              status (last (getQueuedCommands (addCommand dev cmd v newid now s))) = pending"
    by (simp add: addCommand_def Let_def getQueuedCommands_def snapshot_def)
  have 4: "\<forall>a. retryCount (heap s a) < MAX_RETRIES \<longrightarrow>
              (\<forall>send. sent (iteration send a s) = sent s @ [sendingForm (heap s a)]) \<and>
              (\<forall>rest. tasks (runLoop (a # rest) s) = tasks s @ [AwaitSave1 a rest] \<and>
                      heap (runLoop (a # rest) s) a = sendingForm (heap s a) \<and>
                      sent (runLoop (a # rest) s) = sent s)"
    by (simp add: iteration_def Let_def sendingForm_def)
  have 5: "\<forall>a send. \<not> processing s \<and> uniqueIds s \<and> a \<in> set (queue s) \<and> eligible s a \<and>
              MAX_RETRIES \<le> retryCount (heap s a) \<longrightarrow>
              a \<notin> set (queue (drain send s)) \<and>
              attempts (drain send s) (cid (heap s a)) = attempts s (cid (heap s a))"
    using drain_at_ceiling by blast
  have 6: "\<forall>c\<in>set (sent s). status c = sending \<and> 1 \<le> retryCount c \<and> retryCount c \<le> MAX_RETRIES"
    using reachable_inv2[OF assms] by (simp add: inv2_def sent_ok_def)
  have 7: "\<forall>a. a \<in> set (queue s) \<longrightarrow>
              a \<in> set (queue (finishAttempt False a s)) \<and>
              heap (finishAttempt False a s) a = (heap s a)\<lparr>status := failed\<rparr>"
    by (simp add: finishAttempt_def saveQueue_def clearTimeout_def Let_def split: option.split)
  show ?thesis using 1 2 3 4 5 6 7 by blast
qed

lemma third_attempt_trace_runs: "run third_attempt_trace init_state \<noteq> None"
  by code_simp

lemma third_attempt_trace_reachable: "reachable (the (run third_attempt_trace init_state))"
  unfolding reachable_def using third_attempt_trace_runs
  by (intro exI[of _ third_attempt_trace]) auto

theorem retryCount_never_exceeds_ceiling_witness:
  "reachable (the (run third_attempt_trace init_state)) \<and>
   map retryCount (getQueuedCommands (the (run third_attempt_trace init_state))) = [3] \<and>
   map retryCount (sent (the (run third_attempt_trace init_state))) = [1, 2, 3] \<and>
   MAX_RETRIES \<le> retryCount (heap (the (run third_attempt_trace init_state)) 0) \<and>
   0 \<notin> set (queue (runLoop [0] (the (run third_attempt_trace init_state)))) \<and>
   list_all (\<lambda>c. retryCount c \<le> MAX_RETRIES) (getQueuedCommands (the (run third_attempt_trace init_state))) \<and>
   list_all (\<lambda>c. 1 \<le> retryCount c) (sent (the (run third_attempt_trace init_state))) \<and>
   0 \<in> set (queue (the (run third_attempt_trace init_state))) \<and>
   0 \<in> set (queue (finishAttempt False 0 (the (run third_attempt_trace init_state)))) \<and>
   retryCount (heap (finishAttempt False 0 (the (run third_attempt_trace init_state))) 0) = 3"
proof -
  let ?w = "the (run third_attempt_trace init_state)"
  note t = retryCount_never_exceeds_ceiling[OF third_attempt_trace_reachable]
  have 1: "map retryCount (getQueuedCommands ?w) = [3]" by code_simp
  have 2: "MAX_RETRIES \<le> retryCount (heap ?w 0)" by code_simp
  have 3: "0 \<notin> set (queue (runLoop [0] ?w))" using t 2 by blast
  have "\<forall>c\<in>set (getQueuedCommands ?w). retryCount c \<le> MAX_RETRIES" using t by blast
  then have 4: "list_all (\<lambda>c. retryCount c \<le> MAX_RETRIES) (getQueuedCommands ?w)"
    by (simp add: list_all_iff)
  have 5: "map retryCount (sent ?w) = [1, 2, 3]" by code_simp
  have "\<forall>c\<in>set (sent ?w). status c = sending \<and> 1 \<le> retryCount c \<and> retryCount c \<le> MAX_RETRIES"
    using t by blast
  then have 6: "list_all (\<lambda>c. 1 \<le> retryCount c) (sent ?w)"
    by (simp add: list_all_iff)
  have 7: "0 \<in> set (queue ?w)" "retryCount (heap ?w 0) = 3" by code_simp+
  have 8: "0 \<in> set (queue (finishAttempt False 0 ?w)) \<and>
           heap (finishAttempt False 0 ?w) 0 = (heap ?w 0)\<lparr>status := failed\<rparr>"
    using t 7(1) by blast
  have 9: "retryCount (heap (finishAttempt False 0 ?w) 0) = 3" using 8 7(2) by simp
  show ?thesis using third_attempt_trace_reachable 1 2 3 4 5 6 7(1) 8 9 by blast
qed

text \<open>
  After the third failed attempt the count of the command is at the ceiling. The pass has
  ended, the debounced save has written the queue and nothing is scheduled: the command is in
  the queue and in the store, with status \<open>failed\<close>, and stays there until \<^verbatim>\<open>processQueue\<close> is
  called again.
\<close>

theorem command_at_the_ceiling_stays_queued_counterexample:
  "map_option (map retryCount \<circ> getQueuedCommands)
     (run (three_failures_trace @ [TimerFire 9 True, Resume 0]) init_state) = Some [3] \<and>
   MAX_RETRIES = 3 \<and>
   map_option (map status \<circ> getQueuedCommands)
     (run (three_failures_trace @ [TimerFire 9 True, Resume 0]) init_state) = Some [failed] \<and>
   map_option (map_option (map retryCount) \<circ> store)
     (run (three_failures_trace @ [TimerFire 9 True, Resume 0]) init_state) = Some (Some [3]) \<and>
   map_option processing
     (run (three_failures_trace @ [TimerFire 9 True, Resume 0]) init_state) = Some False \<and>
   map_option tasks
     (run (three_failures_trace @ [TimerFire 9 True, Resume 0]) init_state) = Some [] \<and>
   map_option timers
     (run (three_failures_trace @ [TimerFire 9 True, Resume 0]) init_state) = Some []"
  by code_simp

subsection \<open>C9: one drain pass at a time\<close>

text \<open>
  C9. In every reachable state, whatever the interleaving of triggers, at most one
  continuation of \<^verbatim>\<open>processQueue\<close> is inside the loop, and the flag \<^verbatim>\<open>processing\<close> is set
  exactly when there is one. A call of \<^verbatim>\<open>processQueue\<close> while the flag is set changes nothing.
  A call that passes the guard sets the flag before anything else, and the flag is cleared
  when the loop runs out of commands.
\<close>

theorem at_most_one_active_drain:
  assumes "reachable s"
  shows "activeDrains s \<le> 1 \<and> (processing s \<longleftrightarrow> activeDrains s = 1) \<and>
         (processing s \<longrightarrow> processQueue s = s \<and> fire ProcessQueue s = Some s) \<and>
         (\<not> processing s \<and> queue s \<noteq> [] \<longrightarrow>
            processQueue s = runLoop (filter (eligible s) (queue s)) (s\<lparr>processing := True\<rparr>)) \<and>
         (processing (processQueue s) \<longleftrightarrow> activeDrains (processQueue s) = 1) \<and>
         \<not> processing (runLoop [] s)"
proof -
  have i: "flag_ok s" using reachable_inv[OF assms] by (simp add: inv_def)
  have j: "flag_ok (processQueue s)" using i by (rule flag_ok_processQueue)
  have e: "eligible (s\<lparr>processing := True\<rparr>) = eligible s" by (simp add: eligible_def fun_eq_iff)
  show ?thesis using i j
    by (auto simp: flag_ok_def processQueue_def Let_def e split: if_splits)
qed

lemma concurrent_triggers_trace_runs: "run concurrent_triggers_trace init_state \<noteq> None"
  by code_simp

lemma concurrent_triggers_trace_reachable:
  "reachable (the (run concurrent_triggers_trace init_state))"
  unfolding reachable_def using concurrent_triggers_trace_runs
  by (intro exI[of _ concurrent_triggers_trace]) auto


theorem at_most_one_active_drain_witness:
  "reachable (the (run concurrent_triggers_trace init_state)) \<and>
   processing (the (run concurrent_triggers_trace init_state)) \<and>
   activeDrains (the (run concurrent_triggers_trace init_state)) = 1 \<and>
   tasks (the (run concurrent_triggers_trace init_state)) = [AwaitSend 0 []] \<and>
   fire ProcessQueue (the (run concurrent_triggers_trace init_state))
     = Some (the (run concurrent_triggers_trace init_state))"
proof -
  let ?w = "the (run concurrent_triggers_trace init_state)"
  note t = at_most_one_active_drain[OF concurrent_triggers_trace_reachable]
  have 1: "processing ?w" by code_simp
  have 2: "tasks ?w = [AwaitSend 0 []]" by code_simp
  show ?thesis using concurrent_triggers_trace_reachable t 1 2 by blast
qed

subsection \<open>C4: clearing the queue\<close>

text \<open>
  C4. \<^verbatim>\<open>clearQueue\<close> empties the queue, cancels the timer whose handle \<^verbatim>\<open>saveTimeout\<close> holds (the
  comment at line 102 reads \<^verbatim>\<open>Clear any pending save\<close>) and writes the empty queue at once. A
  debounced save whose handle has been lost is not cancelled. In the run below the handle of
  timer 3 has been lost before \<^verbatim>\<open>clearQueue\<close> is called: when \<^verbatim>\<open>clearQueue\<close> has returned the queue
  is empty and the store holds the empty list, and timer 3 is still scheduled; it fires
  afterwards and writes the queue once more.
\<close>

theorem clearQueue_leaves_a_debounced_save_scheduled:
  "map_option timers (run lost_handle_trace init_state) = Some [3] \<and>
   map_option saveTimeout (run lost_handle_trace init_state) = Some None \<and>
   map_option (map cid \<circ> getQueuedCommands) (run lost_handle_trace init_state) = Some [''id1''] \<and>
   map_option tasks (run clear_after_lost_handle_trace init_state) = Some [] \<and>
   map_option getQueuedCommands (run clear_after_lost_handle_trace init_state) = Some [] \<and>
   map_option store (run clear_after_lost_handle_trace init_state) = Some (Some []) \<and>
   map_option saveTimeout (run clear_after_lost_handle_trace init_state) = Some None \<and>
   map_option timers (run clear_after_lost_handle_trace init_state) = Some [3] \<and>
   map_option timers (run (clear_after_lost_handle_trace @ [TimerFire 3 True]) init_state) = Some []"
  by code_simp

text \<open>
  What \<^verbatim>\<open>clearQueue\<close> does in every state, up to its \<^verbatim>\<open>await\<close>: the queue is empty in memory, the
  remembered handle is reset and the timer it referred to is cancelled, and the write is
  issued at once. When AsyncStorage accepts the write the store holds the empty list, and a
  restart that reloads the queue from the store yields an empty queue; when it rejects the
  write the error is caught and the store keeps what it held. The two continuations that
  follow, up to the return of \<^verbatim>\<open>clearQueue\<close>, change none of this when nothing runs in between.
\<close>

lemma clearQueue_writes_at_once:
  "queue (clearQueue ok s) = [] \<and> getQueuedCommands (clearQueue ok s) = [] \<and>
   saveTimeout (clearQueue ok s) = None \<and>
   set (timers (clearQueue ok s)) = set (timers s) - set_option (saveTimeout s) \<and>
   store (clearQueue True s) = Some [] \<and>
   getQueuedCommands (restart True (clearQueue True s)) = [] \<and>
   store (clearQueue False s) = store s \<and>
   tasks (clearQueue ok s) = tasks s @ [SaveImmCont]"
  by (auto simp: clearQueue_def saveQueueImmediate_def clearTimeout_def getQueuedCommands_def
      snapshot_def restart_def init_def load_def Let_def split: option.splits)

lemma clearQueue_returns:
  "run [ClearQueue ok, Resume (length (tasks s)), Resume (length (tasks s))] s
     = Some ((clearQueue ok s)\<lparr>tasks := tasks s\<rparr>)"
proof -
  let ?c = "clearQueue ok s"
  have t: "tasks ?c = tasks s @ [SaveImmCont]" using clearQueue_writes_at_once[of ok s] by simp
  have 1: "fire (Resume (length (tasks s))) ?c = Some (?c\<lparr>tasks := tasks s @ [ClearCont]\<rparr>)"
    by (simp add: t removeAt_last)
  have 2: "fire (Resume (length (tasks s))) (?c\<lparr>tasks := tasks s @ [ClearCont]\<rparr>)
             = Some (?c\<lparr>tasks := tasks s\<rparr>)"
    by (simp add: removeAt_last)
  have 0: "fire (ClearQueue ok) s = Some ?c" by simp
  show ?thesis by (simp add: 0 1 2 del: fire.simps)
qed

text \<open>A first command has been saved, the save of a second one is pending and its handle is
  remembered: \<^verbatim>\<open>clearQueue\<close> cancels it, and a restart finds an empty queue.\<close>

lemma clearQueue_cancels_the_remembered_save:
  "map cid (getQueuedCommands (the (run saved_trace init_state))) = [''id1'', ''id2''] \<and>
   map cid (the (store (the (run saved_trace init_state)))) = [''id1''] \<and>
   timers (the (run saved_trace init_state)) = [1] \<and>
   store (clearQueue True (the (run saved_trace init_state))) = Some [] \<and>
   timers (clearQueue True (the (run saved_trace init_state))) = [] \<and>
   getQueuedCommands (restart True (clearQueue True (the (run saved_trace init_state)))) = []"
proof -
  let ?w = "the (run saved_trace init_state)"
  have 1: "map cid (getQueuedCommands ?w) = [''id1'', ''id2'']" by code_simp
  have 2: "map cid (the (store ?w)) = [''id1'']" by code_simp
  have 3: "timers ?w = [1]" "saveTimeout ?w = Some 1" by code_simp+
  have 4: "timers (clearQueue True ?w) = []"
    using clearQueue_writes_at_once[of True ?w] 3 by simp
  show ?thesis using clearQueue_writes_at_once[of True ?w] 1 2 3 4 by simp
qed

text \<open>When AsyncStorage rejects the immediate write, a restart brings the saved command back.\<close>

lemma rejected_immediate_write_is_caught:
  "map cid (getQueuedCommands (the (run (saved_trace @ [ClearQueue False, Restart True]) init_state)))
     = [''id1'']"
  by code_simp

section \<open>The claims about the credential cache and the request registry\<close>

subsection \<open>C1: one network call per key and window\<close>



text \<open>
  The \<^verbatim>\<open>finally\<close> callback deletes by key: when a request that outlived its window settles
  after a newer one for the same key was registered, the newer entry goes too, and a call
  made then finds no entry.
\<close>

lemma settling_of_a_stale_request_unregisters_the_newer_one:
  "fst (getCalls ''/me/devices'' [0, 1200] net0) = [0, 1] \<and>
   pendingRequests (settle 0 (snd (getCalls ''/me/devices'' [0, 1200] net0))) ''GET:/me/devices'' = None \<and>
   fst (getMyDevices 1300 (settle 0 (snd (getCalls ''/me/devices'' [0, 1200] net0)))) = 2"
  by code_simp

subsection \<open>C3: the cached token after a 401\<close>

text \<open>
  C3, as amended. On status 401 the handler first awaits the removal from durable storage
  and touches the cached token only afterwards: while the removal is pending the cache, the
  remembered promise and what the request interceptor reads are as before. Once the removal
  has succeeded the handler clears the cached token and the remembered promise; the
  interceptor then starts a new read of the store, which no longer holds the token, and
  receives no token. When the removal is rejected the handler stops there and the cache keeps
  the token.
\<close>

theorem cache_cleared_after_the_removal:
  "cachedAuthToken (on401_issue removeOk s) = cachedAuthToken s \<and>
   tokenCachePromise (on401_issue removeOk s) = tokenCachePromise s \<and>
   fst (interceptorToken readOk (on401_issue removeOk s)) = fst (interceptorToken readOk s) \<and>
   cachedAuthToken (on401_resume True (on401_issue True s)) = None \<and>
   tokenCachePromise (on401_resume True (on401_issue True s)) = None \<and>
   tokenStore (on401_resume True (on401_issue True s)) = None \<and>
   fst (interceptorToken readOk (on401_resume True (on401_issue True s))) = Later (length (storeReads s)) \<and>
   received (snd (interceptorToken readOk (on401_resume True (on401_issue True s))))
            (fst (interceptorToken readOk (on401_resume True (on401_issue True s)))) = None \<and>
   on401_resume False (on401_issue False s) = s"
  by (simp add: on401_issue_def on401_resume_def updateCachedToken_def interceptorToken_def
      initializeTokenCache_def received_def promiseValue_def Let_def split: option.split)

theorem cache_cleared_after_the_removal_witness:
  "cachedAuthToken loggedIn = Some ''tok'' \<and>
   cachedAuthToken (on401_issue True loggedIn) = Some ''tok'' \<and>
   cachedAuthToken (on401_resume True (on401_issue True loggedIn)) = None \<and>
   fst (interceptorToken True (on401_resume True (on401_issue True loggedIn))) = Later 0 \<and>
   received (snd (interceptorToken True (on401_resume True (on401_issue True loggedIn))))
            (fst (interceptorToken True (on401_resume True (on401_issue True loggedIn)))) = None"
proof -
  have c: "cachedAuthToken loggedIn = Some ''tok''" "storeReads loggedIn = []"
    by (simp_all add: loggedIn_def)
  show ?thesis using cache_cleared_after_the_removal[of True loggedIn True] c
    by (elim conjE) simp
qed

text \<open>With the removal issued and the handler waiting, the interceptor still reads the old
  token; and a rejected removal leaves it cached.\<close>

theorem old_token_read_while_removal_pending_counterexample:
  "tokenStore (on401_issue True loggedIn) = None \<and>
   cachedAuthToken (on401_issue True loggedIn) = Some ''tok'' \<and>
   fst (interceptorToken True (on401_issue True loggedIn)) = Now (Some ''tok'') \<and>
   cachedAuthToken (on401_resume False (on401_issue False loggedIn)) = Some ''tok''"
  by (simp add: on401_issue_def on401_resume_def interceptorToken_def loggedIn_def)

subsection \<open>C6: one read of the store for a cold cache\<close>

text \<open>
  C6. From a cold cache (no cached token, no remembered promise) any number of calls of
  \<^verbatim>\<open>initializeTokenCache\<close> made before the read is done issue exactly one read of the store:
  the first call makes the promise and every call returns that promise, so all callers
  receive the same value, the stored token or \<^verbatim>\<open>null\<close> when the read fails.
\<close>

theorem one_store_read_for_concurrent_callers:
  assumes "cachedAuthToken s = None" "tokenCachePromise s = None" "oks \<noteq> []"
  shows "fst (tokenCalls oks s) = replicate (length oks) (Later (length (storeReads s))) \<and>
         storeReads (snd (tokenCalls oks s))
           = storeReads s @ [if hd oks then Resolved (tokenStore s) else Rejected] \<and>
         map (received (snd (tokenCalls oks s))) (fst (tokenCalls oks s))
           = replicate (length oks) (if hd oks then tokenStore s else None) \<and>
         tokenCachePromise (snd (tokenCalls oks s)) = Some (length (storeReads s)) \<and>
         interceptorToken (hd oks) s = initializeTokenCache (hd oks) s"
proof -
  obtain ok rest where oks: "oks = ok # rest" using assms(3) by (cases oks) auto
  let ?p = "length (storeReads s)"
  let ?s1 = "s\<lparr>storeReads := storeReads s @ [if ok then Resolved (tokenStore s) else Rejected],
               tokenCachePromise := Some ?p\<rparr>"
  have 1: "initializeTokenCache ok s = (Later ?p, ?s1)"
    using assms(1,2) by (rule initializeTokenCache_cold)
  have 2: "tokenCalls rest ?s1 = (replicate (length rest) (Later ?p), ?s1)"
    using assms(1) by (intro tokenCalls_shared) simp_all
  have 3: "tokenCalls oks s = (replicate (length oks) (Later ?p), ?s1)"
    unfolding oks by (simp add: 1 2)
  have 4: "received ?s1 (Later ?p) = (if ok then tokenStore s else None)"
    by (simp add: received_def promiseValue_def)
  have 5: "interceptorToken (hd oks) s = initializeTokenCache (hd oks) s"
    using assms(1) by (simp add: interceptorToken_def)
  show ?thesis unfolding 3 using 4 5 by (simp add: oks)
qed

theorem one_store_read_for_concurrent_callers_witness:
  "cachedAuthToken cold = None \<and> tokenCachePromise cold = None \<and> [True, True, False] \<noteq> [] \<and>
   fst (tokenCalls [True, True, False] cold) = [Later 0, Later 0, Later 0] \<and>
   length (storeReads (snd (tokenCalls [True, True, False] cold))) = 1 \<and>
   map (received (snd (tokenCalls [True, True, False] cold))) (fst (tokenCalls [True, True, False] cold))
     = [Some ''tok'', Some ''tok'', Some ''tok'']"
proof -
  have c: "cachedAuthToken cold = None" "tokenCachePromise cold = None" "storeReads cold = []"
    "tokenStore cold = Some ''tok''"
    by (simp_all add: cold_def)
  have n: "[True, True, False] \<noteq> []" by simp
  show ?thesis
    using one_store_read_for_concurrent_callers[OF c(1) c(2) n] c
    by (elim conjE) (simp del: tokenCalls.simps add: numeral_3_eq_3)
qed

section \<open>The claims about hashing\<close>

subsection \<open>C5: key order and element order\<close>





subsection \<open>C7: values that cannot be hashed\<close>

text \<open>
  C7, as amended. The version of \<^verbatim>\<open>hashData\<close> that sorts keys returns a string for every
  value, a value that contains itself included: its body is one \<^verbatim>\<open>try\<close> block. When the block
  throws, the result is the fallback \<^verbatim>\<open>[hash-error:type:time]\<close> with the \<^verbatim>\<open>typeof\<close> of the value
  and the reading of the clock, and fallbacks of different times differ; for an object that
  is its own property, hashes taken at different times differ. The version that returns
  \<^verbatim>\<open>JSON.stringify(data)\<close> catches a failure of the serialisation as well, but its fallback
  has no type tag and no time in it: it is \<^verbatim>\<open>String(data)\<close>, which is \<^verbatim>\<open>[object Object]\<close> for an
  object that contains itself, whatever the time.
\<close>

theorem fallback_hash_only_in_the_sorting_version:
  "hashData_sorted (Suc n) h now v \<noteq> None \<and>
   (hashTry n h now v = None \<longrightarrow>
      hashData_sorted (Suc n) h now v = Some (hashError (typeOf v) now)) \<and>
   (hashTry n h now v \<noteq> None \<longrightarrow> hashData_sorted (Suc n) h now v = hashTry n h now v) \<and>
   (now \<noteq> now' \<longrightarrow> hashError ty now \<noteq> hashError ty now') \<and>
   (h a = JObject [(k, JRef a)] \<and> now \<noteq> now' \<longrightarrow>
      hashData_sorted (Suc n) h now (JRef a) \<noteq> hashData_sorted (Suc n) h now' (JRef a)) \<and>
   (stringify n h [] v = Inl e \<and> toStr n h [] v = Inr s \<longrightarrow> hashData_stringify n h v = Inr (Some s)) \<and>
   (h a = JObject [(k, JRef a)] \<longrightarrow>
      stringify (Suc n) h [] (JRef a) = Inl (if n = 0 then RangeError else TypeError) \<and>
      hashData_stringify (Suc n) h (JRef a) = Inr (Some ''[object Object]''))"
proof (intro conjI impI)
  show "hashData_sorted (Suc n) h now v \<noteq> None" by simp
  show "hashTry n h now v = None \<Longrightarrow> hashData_sorted (Suc n) h now v = Some (hashError (typeOf v) now)"
    by simp
  show "hashTry n h now v \<noteq> None \<Longrightarrow> hashData_sorted (Suc n) h now v = hashTry n h now v"
    by auto
  show "now \<noteq> now' \<Longrightarrow> hashError ty now \<noteq> hashError ty now'"
    using hashError_inj by blast
  show "h a = JObject [(k, JRef a)] \<and> now \<noteq> now' \<Longrightarrow>
      hashData_sorted (Suc n) h now (JRef a) \<noteq> hashData_sorted (Suc n) h now' (JRef a)"
    using hashData_sorted_self[of h a k] selfHash_inj by (metis option.inject)
  show "stringify n h [] v = Inl e \<and> toStr n h [] v = Inr s \<Longrightarrow> hashData_stringify n h v = Inr (Some s)"
    by (simp add: hashData_stringify_def)
  show "h a = JObject [(k, JRef a)] \<Longrightarrow>
      stringify (Suc n) h [] (JRef a) = Inl (if n = 0 then RangeError else TypeError)"
    by (cases n) simp_all
  show "h a = JObject [(k, JRef a)] \<Longrightarrow>
      hashData_stringify (Suc n) h (JRef a) = Inr (Some ''[object Object]'')"
    by (rule hashData_stringify_self)
qed

theorem fallback_hash_only_in_the_sorting_version_witness:
  "exampleHeap 4 = JObject [(''self'', JRef 4)] \<and> (1000::int) \<noteq> 2000 \<and>
   hashTry 0 exampleHeap 1000 (JRef 4) = None \<and>
   hashData_sorted 1 exampleHeap 1000 (JRef 4) = Some ''[hash-error:object:1000]'' \<and>
   hashData_sorted 3 exampleHeap 1000 (JRef 4) = Some ''{self:{self:[hash-error:object:1000]}}'' \<and>
   hashData_sorted 3 exampleHeap 1000 (JRef 4) \<noteq> hashData_sorted 3 exampleHeap 2000 (JRef 4) \<and>
   stringify 3 exampleHeap [] (JRef 4) = Inl TypeError \<and>
   hashData_stringify 3 exampleHeap (JRef 4) = Inr (Some ''[object Object]'')"
proof -
  have e: "exampleHeap 4 = JObject [(''self'', JRef 4)]" by (simp add: exampleHeap_def)
  have t0: "hashTry 0 exampleHeap 1000 (JRef 4) = None" by (simp add: hashTry.simps e)
  have s: "hashError ''object'' 1000 = ''[hash-error:object:1000]''"
    by (simp add: hashError_def showInt_def digitsOf.simps)
  note t = fallback_hash_only_in_the_sorting_version
  have 1: "hashData_sorted 1 exampleHeap 1000 (JRef 4) = Some ''[hash-error:object:1000]''"
    using t[of 0 exampleHeap 1000 "JRef 4"] t0 s by (simp del: hashData_sorted.simps)
  have 3: "hashData_sorted 3 exampleHeap 1000 (JRef 4) = Some ''{self:{self:[hash-error:object:1000]}}''"
    using hashData_sorted_self[of exampleHeap 4 "''self''" 2 1000, OF e] s
      by (simp add: numeral_3_eq_3 numeral_2_eq_2 del: hashData_sorted.simps)
  have d: "hashData_sorted 3 exampleHeap 1000 (JRef 4) \<noteq> hashData_sorted 3 exampleHeap 2000 (JRef 4)"
    using t[where n = 2 and h = exampleHeap and a = 4 and k = "''self''" and now = 1000 and now' = 2000] e
    by (simp add: numeral_3_eq_3 del: hashData_sorted.simps stringify.simps)
  have j: "stringify 3 exampleHeap [] (JRef 4) = Inl TypeError \<and>
           hashData_stringify 3 exampleHeap (JRef 4) = Inr (Some ''[object Object]'')"
    using t[where n = 2 and h = exampleHeap and a = 4 and k = "''self''"] e
    by (simp add: numeral_3_eq_3 del: hashData_sorted.simps stringify.simps)
  show ?thesis using e t0 1 3 d j by simp
qed

text \<open>The serialising version on an object that contains itself: the serialisation fails and
  the hash is the constant \<^verbatim>\<open>[object Object]\<close>, which holds no type tag and no time.\<close>

theorem stringify_fallback_has_no_timestamp_counterexample:
  "exampleHeap 4 = JObject [(''self'', JRef 4)] \<and>
   stringify 3 exampleHeap [] (JRef 4) = Inl TypeError \<and>
   toStr 3 exampleHeap [] (JRef 4) = Inr ''[object Object]'' \<and>
   hashData_stringify 3 exampleHeap (JRef 4) = Inr (Some ''[object Object]'') \<and>
   hashData_stringify 3 exampleHeap (JRef 4) \<noteq> Inr (Some (hashError ''object'' 1000))"
  by code_simp

text \<open>
  \<^verbatim>\<open>JSON.stringify(undefined)\<close> is \<^verbatim>\<open>undefined\<close>: nothing is thrown, so the serialising version
  returns it as it is, although the function is declared to return a string.
\<close>

lemma stringify_of_undefined_is_not_a_string:
  "hashData_stringify 3 exampleHeap JUndefined = Inr None"
  by code_simp

end
